theory Spec2Isabelle
  imports Main "HOL-Library.AList"
begin

section \<open>Python values shared by both components\<close>

text \<open>
  Exceptions are values. \<open>RuntimeError\<close> carries the message of the \<^verbatim>\<open>raise\<close>:
  \<^verbatim>\<open>"No available IPs"\<close> is the lease pool's exhaustion, \<^verbatim>\<open>"No free NAT ports available"\<close>
  the NAT table's. \<open>KeyError\<close> is \<^verbatim>\<open>dict.pop(k)\<close> without a default on a missing key,
  \<open>AssertionError\<close> the failed \<^verbatim>\<open>assert\<close> of \<^verbatim>\<open>NATTable.__init__\<close>, \<open>ValueError\<close> what
  \<^verbatim>\<open>ipaddress\<close> raises for an address or prefix out of range.

  An operation that mutates \<^verbatim>\<open>self\<close> returns its result together with the state it
  leaves behind, also when it raises: what was mutated before the \<^verbatim>\<open>raise\<close> stays mutated.
\<close>

datatype error = RuntimeError string | KeyError | AssertionError | ValueError

abbreviation ResourceExhausted :: error where
  "ResourceExhausted \<equiv> RuntimeError ''No available IPs''"

abbreviation PortExhausted :: error where
  "PortExhausted \<equiv> RuntimeError ''No free NAT ports available''"

text \<open>
  A Python \<^verbatim>\<open>dict\<close> keeps insertion order, and both \<^verbatim>\<open>expire\<close> methods iterate over
  \<^verbatim>\<open>.items()\<close>, so a dict is an association list in insertion order:
  \<^verbatim>\<open>d.get(k)\<close> is \<^const>\<open>map_of\<close>, \<^verbatim>\<open>d[k] = v\<close> is \<^const>\<open>AList.update\<close> (an existing key keeps
  its place, a new key goes to the end), \<^verbatim>\<open>d.pop(k, None)\<close> is \<^const>\<open>AList.delete\<close>.

  \<^verbatim>\<open>Lease\<close> and \<^verbatim>\<open>Mapping\<close> objects are shared by two dicts and mutated in place, so
  the dicts hold references (indices) into a store of objects; constructing an object
  appends it to the store.
\<close>

type_synonym ref = nat

section \<open>dhcp/lease\_pool.py\<close>

type_synonym IPv4Address = nat

record Lease =
  client_id :: string
  ip :: IPv4Address
  expiry :: int

record LeasePool =
  net :: "IPv4Address \<times> nat"
  lease_seconds :: int
  lease_objs :: "Lease list"
  available :: "IPv4Address list"
  leases_by_client :: "(string \<times> ref) list"
  leases_by_ip :: "(IPv4Address \<times> ref) list"

text \<open>
  The standard library's \<^verbatim>\<open>ip_network(network, strict=False)\<close> and \<^verbatim>\<open>IPv4Network.hosts()\<close>,
  on the parsed address (an integer below \<open>2 ^ 32\<close>) and prefix length: the host bits
  are masked off; a /31 yields both addresses, a /32 the address itself, every other
  prefix the addresses strictly between network and broadcast address.
\<close>

definition network_address :: "IPv4Address \<Rightarrow> nat \<Rightarrow> IPv4Address" where
  "network_address addr prefixlen = addr - addr mod 2 ^ (32 - prefixlen)"

definition broadcast_address :: "IPv4Address \<Rightarrow> nat \<Rightarrow> IPv4Address" where
  "broadcast_address addr prefixlen = network_address addr prefixlen + 2 ^ (32 - prefixlen) - 1"

definition hosts :: "IPv4Address \<Rightarrow> nat \<Rightarrow> IPv4Address list" where
  "hosts addr prefixlen =
     (if prefixlen = 31 then [network_address addr prefixlen ..< broadcast_address addr prefixlen + 1]
      else if prefixlen = 32 then [addr]
      else [network_address addr prefixlen + 1 ..< broadcast_address addr prefixlen])"

text \<open>
  \<^verbatim>\<open>LeasePool.__init__\<close>. The network string is taken parsed, as address and prefix
  length, the exclusions as parsed addresses (\<^verbatim>\<open>None\<close> is the empty list).
\<close>

definition LeasePool_init :: "IPv4Address \<Rightarrow> nat \<Rightarrow> int \<Rightarrow> IPv4Address list \<Rightarrow> error + LeasePool" where
  "LeasePool_init addr prefixlen lease_secs exclusions =
     (if 2 ^ 32 \<le> addr \<or> 32 < prefixlen \<or> (\<exists>x \<in> set exclusions. 2 ^ 32 \<le> x) then Inl ValueError
      else
        let hs = hosts addr prefixlen;
            excl = (if hs \<noteq> [] then hd hs # exclusions else exclusions)
        in Inr \<lparr> net = (network_address addr prefixlen, prefixlen),
                 lease_seconds = lease_secs,
                 lease_objs = [],
                 available = filter (\<lambda>a. a \<notin> set excl) hs,
                 leases_by_client = [],
                 leases_by_ip = [] \<rparr>)"

definition available_count :: "LeasePool \<Rightarrow> nat" where
  "available_count s = length (available s)"

definition active_count :: "int option \<Rightarrow> LeasePool \<Rightarrow> nat" where
  "active_count now s =
     (case now of
        None \<Rightarrow> length (leases_by_client s)
      | Some t \<Rightarrow> length (filter (\<lambda>(cid, r). t < expiry (lease_objs s ! r)) (leases_by_client s)))"

text \<open>
  \<^verbatim>\<open>release\<close>: \<^verbatim>\<open>pop(client_id, None)\<close>; a lease object is always truthy, so \<^verbatim>\<open>if lease\<close>
  is the test for presence.
\<close>

definition release :: "string \<Rightarrow> LeasePool \<Rightarrow> LeasePool" where
  "release cid s =
     (case map_of (leases_by_client s) cid of
        None \<Rightarrow> s
      | Some r \<Rightarrow>
          s\<lparr> leases_by_client := AList.delete cid (leases_by_client s),
             leases_by_ip := AList.delete (ip (lease_objs s ! r)) (leases_by_ip s),
             available := available s @ [ip (lease_objs s ! r)] \<rparr>)"

text \<open>
  The \<^verbatim>\<open>for cid in expired_clients\<close> loop of \<^verbatim>\<open>expire\<close>; \<^verbatim>\<open>pop(cid)\<close> has no default and
  raises \<open>KeyError\<close> on a missing key, leaving the loop with what it did so far.
\<close>

fun expire_loop :: "string list \<Rightarrow> LeasePool \<Rightarrow> (error + unit) \<times> LeasePool" where
  "expire_loop [] s = (Inr (), s)"
| "expire_loop (cid # cids) s =
     (case map_of (leases_by_client s) cid of
        None \<Rightarrow> (Inl KeyError, s)
      | Some r \<Rightarrow>
          expire_loop cids
            (s\<lparr> leases_by_client := AList.delete cid (leases_by_client s),
                leases_by_ip := AList.delete (ip (lease_objs s ! r)) (leases_by_ip s),
                available := available s @ [ip (lease_objs s ! r)] \<rparr>))"

definition expired_clients :: "int \<Rightarrow> LeasePool \<Rightarrow> string list" where
  "expired_clients now s =
     map fst (filter (\<lambda>(cid, r). expiry (lease_objs s ! r) \<le> now) (leases_by_client s))"

definition expire :: "int \<Rightarrow> LeasePool \<Rightarrow> (error + nat) \<times> LeasePool" where
  "expire now s =
     (case expire_loop (expired_clients now s) s of
        (Inl e, s') \<Rightarrow> (Inl e, s')
      | (Inr _, s') \<Rightarrow> (Inr (length (expired_clients now s)), s'))"

definition commit_lease :: "ref \<Rightarrow> LeasePool \<Rightarrow> LeasePool" where
  "commit_lease r s =
     (let lease = lease_objs s ! r;
          s1 = (case map_of (leases_by_ip s) (ip lease) of
                  None \<Rightarrow> s
                | Some stale \<Rightarrow>
                    s\<lparr> leases_by_client :=
                         AList.delete (client_id (lease_objs s ! stale)) (leases_by_client s) \<rparr>)
      in s1\<lparr> leases_by_client := AList.update (client_id lease) r (leases_by_client s1),
              leases_by_ip := AList.update (ip lease) r (leases_by_ip s1) \<rparr>)"

text \<open>The part of \<^verbatim>\<open>request\<close> below the comment \<^verbatim>\<open># allocate new\<close>.\<close>

definition allocate_new :: "string \<Rightarrow> int \<Rightarrow> LeasePool \<Rightarrow> (error + IPv4Address) \<times> LeasePool" where
  "allocate_new cid now s =
     (case available s of
        [] \<Rightarrow> (Inl ResourceExhausted, s)
      | a # rest \<Rightarrow>
          (Inr a,
           commit_lease (length (lease_objs s))
             (s\<lparr> available := rest,
                 lease_objs := lease_objs s @
                   [\<lparr> client_id = cid, ip = a, expiry = now + lease_seconds s \<rparr>] \<rparr>)))"

definition request :: "string \<Rightarrow> int \<Rightarrow> LeasePool \<Rightarrow> (error + IPv4Address) \<times> LeasePool" where
  "request cid now s =
     (case expire now s of
        (Inl e, s1) \<Rightarrow> (Inl e, s1)
      | (Inr _, s1) \<Rightarrow>
          (case map_of (leases_by_client s1) cid of
             None \<Rightarrow> allocate_new cid now s1
           | Some r \<Rightarrow>
               if now < expiry (lease_objs s1 ! r) then (Inr (ip (lease_objs s1 ! r)), s1)
               else allocate_new cid now s1))"

definition renew :: "string \<Rightarrow> int \<Rightarrow> LeasePool \<Rightarrow> (error + IPv4Address) \<times> LeasePool" where
  "renew cid now s =
     (case expire now s of
        (Inl e, s1) \<Rightarrow> (Inl e, s1)
      | (Inr _, s1) \<Rightarrow>
          (case map_of (leases_by_client s1) cid of
             None \<Rightarrow> request cid now s1
           | Some r \<Rightarrow>
               if now < expiry (lease_objs s1 ! r) then
                 (Inr (ip (lease_objs s1 ! r)),
                  s1\<lparr> lease_objs := (lease_objs s1)
                        [r := (lease_objs s1 ! r)\<lparr> expiry := now + lease_seconds s1 \<rparr>] \<rparr>)
               else request cid now s1))"

text \<open>
  A driver's calls on one pool. An exception is caught by the driver and the pool lives
  on in the state the call left.
\<close>

datatype pool_op =
    Request string int
  | Renew string int
  | Release string
  | Expire int

fun pool_step :: "pool_op \<Rightarrow> LeasePool \<Rightarrow> LeasePool" where
  "pool_step (Request cid now) s = snd (request cid now s)"
| "pool_step (Renew cid now) s = snd (renew cid now s)"
| "pool_step (Release cid) s = release cid s"
| "pool_step (Expire now) s = snd (expire now s)"

fun pool_run :: "pool_op list \<Rightarrow> LeasePool \<Rightarrow> LeasePool" where
  "pool_run [] s = s"
| "pool_run (x # xs) s = pool_run xs (pool_step x s)"

section \<open>nat/nat\_table.py\<close>

type_synonym Key = "string \<times> string \<times> int"

record Mapping =
  proto :: string
  internal_ip :: string
  internal_port :: int
  external_port :: int
  last_seen :: int

record NATTable =
  public_ip :: string
  pmin :: int
  pmax :: int
  timeout :: int
  mapping_objs :: "Mapping list"
  int2ext :: "(Key \<times> ref) list"
  ext2int :: "(int \<times> ref) list"

text \<open>
  \<^verbatim>\<open>NATTable.__init__\<close>; the public address is taken in the canonical form that
  \<^verbatim>\<open>str(IPv4Address(public_ip))\<close> yields.
\<close>

definition NATTable_init :: "string \<Rightarrow> int \<times> int \<Rightarrow> int \<Rightarrow> error + NATTable" where
  "NATTable_init pub port_range tmo =
     (if 1 \<le> fst port_range \<and> fst port_range < snd port_range \<and> snd port_range \<le> 65535 then
        Inr \<lparr> public_ip = pub, pmin = fst port_range, pmax = snd port_range, timeout = tmo,
               mapping_objs = [], int2ext = [], ext2int = [] \<rparr>
      else Inl AssertionError)"

text \<open>
  \<^verbatim>\<open>str.lower()\<close> is the standard library's Unicode lower-casing. A Python \<^verbatim>\<open>str\<close> is
  modelled by its UTF-8 bytes, so a string is ASCII when all its bytes are below 128. On
  an ASCII string \<^verbatim>\<open>str.lower()\<close> maps the letters A to Z to a to z and nothing else, which
  is written out. On every other string it follows the Unicode case tables, which are
  not part of the repository: there \<^verbatim>\<open>str.lower()\<close> is the parameter \<open>ulower\<close>, about which
  nothing is assumed. Every operation that normalises a protocol takes \<open>ulower\<close> as its
  first argument, and every statement about such an operation holds for every \<open>ulower\<close>.
\<close>

definition lower_char :: "char \<Rightarrow> char" where
  "lower_char c =
     (if 65 \<le> (of_char c :: nat) \<and> (of_char c :: nat) \<le> 90 then char_of (of_char c + 32 :: nat)
      else c)"

definition ascii_str :: "string \<Rightarrow> bool" where
  "ascii_str s = list_all (\<lambda>c. (of_char c :: nat) < 128) s"

definition lower :: "(string \<Rightarrow> string) \<Rightarrow> string \<Rightarrow> string" where
  "lower ulower s = (if ascii_str s then map lower_char s else ulower s)"

text \<open>\<^verbatim>\<open>_alloc_port\<close>: the scan over \<^verbatim>\<open>range(self.pmin, self.pmax + 1)\<close>.\<close>

fun alloc_scan :: "int list \<Rightarrow> (int \<times> ref) list \<Rightarrow> error + int" where
  "alloc_scan [] e = Inl PortExhausted"
| "alloc_scan (p # ps) e = (if map_of e p = None then Inr p else alloc_scan ps e)"

definition alloc_port :: "NATTable \<Rightarrow> error + int" where
  "alloc_port s = alloc_scan [pmin s .. pmax s] (ext2int s)"

definition mapping_key :: "Mapping \<Rightarrow> Key" where
  "mapping_key m = (proto m, internal_ip m, internal_port m)"

definition translate_out ::
  "(string \<Rightarrow> string) \<Rightarrow> string \<Rightarrow> string \<Rightarrow> int \<Rightarrow> int \<Rightarrow> NATTable \<Rightarrow>
   (error + string \<times> int) \<times> NATTable" where
  "translate_out ulower pr iip iport now s =
     (let key = (lower ulower pr, iip, iport) in
      case map_of (int2ext s) key of
        Some r \<Rightarrow>
          (Inr (public_ip s, external_port (mapping_objs s ! r)),
           s\<lparr> mapping_objs := (mapping_objs s)[r := (mapping_objs s ! r)\<lparr> last_seen := now \<rparr>] \<rparr>)
      | None \<Rightarrow>
          (case alloc_port s of
             Inl e \<Rightarrow> (Inl e, s)
           | Inr port \<Rightarrow>
               (Inr (public_ip s, port),
                s\<lparr> mapping_objs := mapping_objs s @
                      [\<lparr> proto = fst key, internal_ip = fst (snd key),
                         internal_port = snd (snd key), external_port = port,
                         last_seen = now \<rparr>],
                    int2ext := AList.update key (length (mapping_objs s)) (int2ext s),
                    ext2int := AList.update port (length (mapping_objs s)) (ext2int s) \<rparr>)))"

definition translate_in ::
  "int \<Rightarrow> int option \<Rightarrow> NATTable \<Rightarrow> (string \<times> string \<times> int) option \<times> NATTable" where
  "translate_in ext_port now s =
     (case map_of (ext2int s) ext_port of
        None \<Rightarrow> (None, s)
      | Some r \<Rightarrow>
          (Some (mapping_key (mapping_objs s ! r)),
           case now of
             None \<Rightarrow> s
           | Some t \<Rightarrow>
               s\<lparr> mapping_objs := (mapping_objs s)[r := (mapping_objs s ! r)\<lparr> last_seen := t \<rparr>] \<rparr>))"

definition touch_by_internal ::
  "(string \<Rightarrow> string) \<Rightarrow> string \<Rightarrow> string \<Rightarrow> int \<Rightarrow> int \<Rightarrow> NATTable \<Rightarrow> bool \<times> NATTable" where
  "touch_by_internal ulower pr iip iport now s =
     (case map_of (int2ext s) (lower ulower pr, iip, iport) of
        None \<Rightarrow> (False, s)
      | Some r \<Rightarrow>
          (True,
           s\<lparr> mapping_objs := (mapping_objs s)[r := (mapping_objs s ! r)\<lparr> last_seen := now \<rparr>] \<rparr>))"

definition nat_release ::
  "(string \<Rightarrow> string) \<Rightarrow> string \<Rightarrow> string \<Rightarrow> int \<Rightarrow> NATTable \<Rightarrow> bool \<times> NATTable" where
  "nat_release ulower pr iip iport s =
     (case map_of (int2ext s) (lower ulower pr, iip, iport) of
        None \<Rightarrow> (False, s)
      | Some r \<Rightarrow>
          (True,
           s\<lparr> int2ext := AList.delete (lower ulower pr, iip, iport) (int2ext s),
              ext2int := AList.delete (external_port (mapping_objs s ! r)) (ext2int s) \<rparr>))"

text \<open>The \<^verbatim>\<open>for port in to_remove\<close> loop of \<^verbatim>\<open>NATTable.expire\<close>.\<close>

fun nat_expire_loop :: "int list \<Rightarrow> NATTable \<Rightarrow> (error + unit) \<times> NATTable" where
  "nat_expire_loop [] s = (Inr (), s)"
| "nat_expire_loop (port # ports) s =
     (case map_of (ext2int s) port of
        None \<Rightarrow> (Inl KeyError, s)
      | Some r \<Rightarrow>
          nat_expire_loop ports
            (s\<lparr> ext2int := AList.delete port (ext2int s),
                int2ext := AList.delete (mapping_key (mapping_objs s ! r)) (int2ext s) \<rparr>))"

definition to_remove :: "int \<Rightarrow> NATTable \<Rightarrow> int list" where
  "to_remove now s =
     map fst (filter (\<lambda>(port, r). timeout s \<le> now - last_seen (mapping_objs s ! r)) (ext2int s))"

definition nat_expire :: "int \<Rightarrow> NATTable \<Rightarrow> (error + nat) \<times> NATTable" where
  "nat_expire now s =
     (case nat_expire_loop (to_remove now s) s of
        (Inl e, s') \<Rightarrow> (Inl e, s')
      | (Inr _, s') \<Rightarrow> (Inr (length (to_remove now s)), s'))"

datatype nat_op =
    TranslateOut string string int int
  | TranslateIn int "int option"
  | Touch string string int int
  | NatRelease string string int
  | NatExpire int

fun nat_step :: "(string \<Rightarrow> string) \<Rightarrow> nat_op \<Rightarrow> NATTable \<Rightarrow> NATTable" where
  "nat_step ulower (TranslateOut pr iip iport now) s = snd (translate_out ulower pr iip iport now s)"
| "nat_step ulower (TranslateIn ext_port now) s = snd (translate_in ext_port now s)"
| "nat_step ulower (Touch pr iip iport now) s = snd (touch_by_internal ulower pr iip iport now s)"
| "nat_step ulower (NatRelease pr iip iport) s = snd (nat_release ulower pr iip iport s)"
| "nat_step ulower (NatExpire now) s = snd (nat_expire now s)"

fun nat_run :: "(string \<Rightarrow> string) \<Rightarrow> nat_op list \<Rightarrow> NATTable \<Rightarrow> NATTable" where
  "nat_run ulower [] s = s"
| "nat_run ulower (x # xs) s = nat_run ulower xs (nat_step ulower x s)"

section \<open>Invariants of the lease pool\<close>

definition leased :: "LeasePool \<Rightarrow> IPv4Address set" where
  "leased s = fst ` set (leases_by_ip s)"

definition pool_parts :: "LeasePool \<Rightarrow> IPv4Address set" where
  "pool_parts s = set (available s) \<union> leased s"

definition pool_wf :: "LeasePool \<Rightarrow> bool" where
  "pool_wf s \<longleftrightarrow>
     distinct (map fst (leases_by_client s)) \<and>
     distinct (map fst (leases_by_ip s)) \<and>
     (\<forall>(c, r) \<in> set (leases_by_client s).
        r < length (lease_objs s) \<and> client_id (lease_objs s ! r) = c \<and>
        map_of (leases_by_ip s) (ip (lease_objs s ! r)) = Some r) \<and>
     (\<forall>(a, r) \<in> set (leases_by_ip s).
        r < length (lease_objs s) \<and> ip (lease_objs s ! r) = a \<and>
        map_of (leases_by_client s) (client_id (lease_objs s ! r)) = Some r) \<and>
     distinct (available s) \<and>
     (\<forall>a \<in> set (available s). map_of (leases_by_ip s) a = None)"




definition pool_8_29 :: LeasePool where
  "pool_8_29 = \<lparr> net = (8, 29), lease_seconds = 100, lease_objs = [],
            available = [10, 11, 12, 13, 14], leases_by_client = [], leases_by_ip = [] \<rparr>"

definition pool_8_29_a :: LeasePool where
  "pool_8_29_a = \<lparr> net = (8, 29), lease_seconds = 100,
            lease_objs = [\<lparr> client_id = ''a'', ip = 10, expiry = 100 \<rparr>],
            available = [11, 12, 13, 14], leases_by_client = [(''a'', 0)], leases_by_ip = [(10, 0)] \<rparr>"

fun lease_ips :: "LeasePool \<Rightarrow> string list \<Rightarrow> IPv4Address list" where
  "lease_ips s [] = []"
| "lease_ips s (c # cs) =
     (case map_of (leases_by_client s) c of
        None \<Rightarrow> lease_ips s cs
      | Some r \<Rightarrow> ip (lease_objs s ! r) # lease_ips s cs)"

fun requests :: "(string \<times> int) list \<Rightarrow> LeasePool \<Rightarrow> (error + IPv4Address) list" where
  "requests [] s = []"
| "requests ((c, t) # xs) s = fst (request c t s) # requests xs (snd (request c t s))"

definition queue_shape :: "IPv4Address list \<Rightarrow> IPv4Address list \<Rightarrow> bool" where
  "queue_shape init q \<longleftrightarrow>
     (\<exists>k ret. q = drop k init @ ret \<and> set ret \<subseteq> set (take k init))"

definition pool_8_29_ab :: LeasePool where
  "pool_8_29_ab = \<lparr> net = (8, 29), lease_seconds = 100,
            lease_objs = [\<lparr> client_id = ''a'', ip = 10, expiry = 100 \<rparr>,
                          \<lparr> client_id = ''b'', ip = 11, expiry = 101 \<rparr>],
            available = [12, 13, 14], leases_by_client = [(''a'', 0), (''b'', 1)],
            leases_by_ip = [(10, 0), (11, 1)] \<rparr>"

definition pool_8_29_b :: LeasePool where
  "pool_8_29_b = \<lparr> net = (8, 29), lease_seconds = 100,
            lease_objs = [\<lparr> client_id = ''a'', ip = 10, expiry = 100 \<rparr>,
                          \<lparr> client_id = ''b'', ip = 11, expiry = 101 \<rparr>],
            available = [12, 13, 14, 10], leases_by_client = [(''b'', 1)],
            leases_by_ip = [(11, 1)] \<rparr>"

section \<open>Invariants of the NAT table\<close>

definition nat_wf :: "NATTable \<Rightarrow> bool" where
  "nat_wf s \<longleftrightarrow>
     distinct (map fst (int2ext s)) \<and>
     distinct (map fst (ext2int s)) \<and>
     (\<forall>(k, r) \<in> set (int2ext s).
        r < length (mapping_objs s) \<and> mapping_key (mapping_objs s ! r) = k \<and>
        map_of (ext2int s) (external_port (mapping_objs s ! r)) = Some r) \<and>
     (\<forall>(p, r) \<in> set (ext2int s).
        r < length (mapping_objs s) \<and> external_port (mapping_objs s ! r) = p \<and>
        pmin s \<le> p \<and> p \<le> pmax s \<and>
        map_of (int2ext s) (mapping_key (mapping_objs s ! r)) = Some r)"

definition nat_t0 :: NATTable where
  "nat_t0 = \<lparr> public_ip = ''203.0.113.5'', pmin = 40000, pmax = 40001, timeout = 30,
              mapping_objs = [], int2ext = [], ext2int = [] \<rparr>"

definition nat_t1 :: NATTable where
  "nat_t1 = \<lparr> public_ip = ''203.0.113.5'', pmin = 40000, pmax = 40001, timeout = 30,
              mapping_objs = [\<lparr> proto = ''tcp'', internal_ip = ''10.0.0.2'', internal_port = 1000,
                                external_port = 40000, last_seen = 0 \<rparr>],
              int2ext = [((''tcp'', ''10.0.0.2'', 1000), 0)], ext2int = [(40000, 0)] \<rparr>"

definition nat_t2 :: NATTable where
  "nat_t2 = \<lparr> public_ip = ''203.0.113.5'', pmin = 40000, pmax = 40001, timeout = 30,
              mapping_objs = [\<lparr> proto = ''tcp'', internal_ip = ''10.0.0.2'', internal_port = 1000,
                                external_port = 40000, last_seen = 0 \<rparr>,
                              \<lparr> proto = ''udp'', internal_ip = ''10.0.0.3'', internal_port = 1001,
                                external_port = 40001, last_seen = 5 \<rparr>],
              int2ext = [((''tcp'', ''10.0.0.2'', 1000), 0), ((''udp'', ''10.0.0.3'', 1001), 1)],
              ext2int = [(40000, 0), (40001, 1)] \<rparr>"

definition pool_5_32 :: LeasePool where
  "pool_5_32 = \<lparr> net = (5, 32), lease_seconds = 60, lease_objs = [], available = [],
            leases_by_client = [], leases_by_ip = [] \<rparr>"

fun keeps_mappings :: "nat_op \<Rightarrow> bool" where
  "keeps_mappings (NatRelease pr iip iport) = False"
| "keeps_mappings (NatExpire now) = False"
| "keeps_mappings x = True"

definition bound_to :: "int \<Rightarrow> ref \<Rightarrow> Key \<Rightarrow> NATTable \<Rightarrow> bool" where
  "bound_to p r k s \<longleftrightarrow>
     map_of (ext2int s) p = Some r \<and> r < length (mapping_objs s) \<and>
     mapping_key (mapping_objs s ! r) = k"

definition out_key :: "(string \<Rightarrow> string) \<Rightarrow> string \<times> string \<times> int \<times> int \<Rightarrow> Key" where
  "out_key ulower x = (case x of (pr, iip, iport, now) \<Rightarrow> (lower ulower pr, iip, iport))"

definition out_op :: "string \<times> string \<times> int \<times> int \<Rightarrow> nat_op" where
  "out_op x = (case x of (pr, iip, iport, now) \<Rightarrow> TranslateOut pr iip iport now)"

fun translate_outs ::
  "(string \<Rightarrow> string) \<Rightarrow> (string \<times> string \<times> int \<times> int) list \<Rightarrow> NATTable \<Rightarrow>
   (error + string \<times> int) list" where
  "translate_outs ulower [] s = []"
| "translate_outs ulower ((pr, iip, iport, now) # xs) s =
     fst (translate_out ulower pr iip iport now s) #
     translate_outs ulower xs (snd (translate_out ulower pr iip iport now s))"

section \<open>The lease pool keeps its invariants\<close>

lemma pool_wf_alt:
  "pool_wf s \<longleftrightarrow>
     distinct (map fst (leases_by_client s)) \<and>
     distinct (map fst (leases_by_ip s)) \<and>
     (\<forall>c r. map_of (leases_by_client s) c = Some r \<longrightarrow>
        r < length (lease_objs s) \<and> client_id (lease_objs s ! r) = c \<and>
        map_of (leases_by_ip s) (ip (lease_objs s ! r)) = Some r) \<and>
     (\<forall>a r. map_of (leases_by_ip s) a = Some r \<longrightarrow>
        r < length (lease_objs s) \<and> ip (lease_objs s ! r) = a \<and>
        map_of (leases_by_client s) (client_id (lease_objs s ! r)) = Some r) \<and>
     distinct (available s) \<and>
     (\<forall>a \<in> set (available s). map_of (leases_by_ip s) a = None)"
  unfolding pool_wf_def by (auto simp del: map_of_eq_Some_iff dest!: map_of_SomeD) (auto)

lemma release_wf: "pool_wf s \<Longrightarrow> pool_wf (release cid s)"
  unfolding pool_wf_alt release_def
  by (cases "map_of (leases_by_client s) cid")
     (auto simp: AList.delete_conv' AList.distinct_delete simp del: map_of_eq_Some_iff, (metis option.inject)+)

lemma release_parts:
  "pool_wf s \<Longrightarrow> pool_parts (release cid s) = pool_parts s"
  unfolding pool_wf_alt release_def leased_def pool_parts_def
  by (cases "map_of (leases_by_client s) cid")
     (auto simp: AList.delete_conv' dom_map_of_conv_image_fst[symmetric] simp del: map_of_eq_Some_iff)


lemma release_by_client:
  "map_of (leases_by_client (release cid s)) = (map_of (leases_by_client s))(cid := None)"
  by (cases "map_of (leases_by_client s) cid") (auto simp: release_def AList.delete_conv')

lemma release_objs [simp]:
  "lease_objs (release cid s) = lease_objs s" "lease_seconds (release cid s) = lease_seconds s"
  by (auto simp: release_def split: option.splits)

lemma expire_loop_Cons:
  "expire_loop (cid # cids) s =
     (case map_of (leases_by_client s) cid of
        None \<Rightarrow> (Inl KeyError, s)
      | Some r \<Rightarrow> expire_loop cids (release cid s))"
  by (simp add: release_def split: option.splits)

lemmas expire_loop_simps = expire_loop.simps(1) expire_loop_Cons

lemma expire_loop_wf: "pool_wf s \<Longrightarrow> pool_wf (snd (expire_loop cids s))"
  by (induction cids arbitrary: s) (auto simp: expire_loop_simps release_wf split: option.splits simp del: expire_loop.simps(2))

lemma expire_loop_parts:
  "pool_wf s \<Longrightarrow> pool_parts (snd (expire_loop cids s)) = pool_parts s"
proof (induction cids arbitrary: s)
  case Nil
  then show ?case by simp
next
  case (Cons cid cids)
  show ?case
  proof (cases "map_of (leases_by_client s) cid")
    case None
    then show ?thesis by (simp add: expire_loop_Cons del: expire_loop.simps)
  next
    case (Some r)
    then show ?thesis
      using Cons.IH[OF release_wf[OF Cons.prems], of cid] release_parts[OF Cons.prems, of cid]
      by (simp add: expire_loop_Cons del: expire_loop.simps)
  qed
qed

lemma expire_loop_objs [simp]:
  "lease_objs (snd (expire_loop cids s)) = lease_objs s"
  "lease_seconds (snd (expire_loop cids s)) = lease_seconds s"
  by (induction cids arbitrary: s) (auto simp: expire_loop_simps split: option.splits simp del: expire_loop.simps(2))

lemma expire_loop_ok:
  "distinct cids \<Longrightarrow> set cids \<subseteq> dom (map_of (leases_by_client s)) \<Longrightarrow>
   fst (expire_loop cids s) = Inr ()"
proof (induction cids arbitrary: s)
  case Nil
  then show ?case by simp
next
  case (Cons cid cids)
  from Cons.prems obtain r where r: "map_of (leases_by_client s) cid = Some r" by auto
  have "set cids \<subseteq> dom (map_of (leases_by_client (release cid s)))"
    using Cons.prems by (auto simp: release_by_client)
  with Cons.IH[of "release cid s"] Cons.prems r show ?case
    by (simp add: expire_loop_Cons del: expire_loop.simps)
qed

lemma expire_loop_by_client:
  "fst (expire_loop cids s) = Inr () \<Longrightarrow>
   leases_by_client (snd (expire_loop cids s)) = filter (\<lambda>p. fst p \<notin> set cids) (leases_by_client s)"
proof (induction cids arbitrary: s)
  case Nil
  then show ?case by simp
next
  case (Cons cid cids)
  then obtain r where r: "map_of (leases_by_client s) cid = Some r"
    by (cases "map_of (leases_by_client s) cid") (auto simp: expire_loop_Cons simp del: expire_loop.simps)
  have "leases_by_client (release cid s) = filter (\<lambda>p. fst p \<noteq> cid) (leases_by_client s)"
    using r by (auto simp: release_def AList.delete_eq intro: filter_cong)
  with Cons r show ?case
    by (auto simp: expire_loop_Cons simp del: expire_loop.simps intro: filter_cong)
qed

lemma expire_loop_available:
  "\<exists>ys. available (snd (expire_loop cids s)) = available s @ ys \<and>
        (fst (expire_loop cids s) = Inr () \<longrightarrow> length ys = length cids)"
proof (induction cids arbitrary: s)
  case Nil
  then show ?case by simp
next
  case (Cons cid cids)
  show ?case
  proof (cases "map_of (leases_by_client s) cid")
    case None
    then show ?thesis by (simp add: expire_loop_Cons del: expire_loop.simps)
  next
    case (Some r)
    obtain ys where "available (snd (expire_loop cids (release cid s))) = available (release cid s) @ ys"
       "fst (expire_loop cids (release cid s)) = Inr () \<longrightarrow> length ys = length cids"
      using Cons.IH[of "release cid s"] by blast
    with Some show ?thesis
      by (simp add: expire_loop_Cons release_def del: expire_loop.simps)
  qed
qed

lemma expired_clients_distinct:
  "distinct (map fst (leases_by_client s)) \<Longrightarrow> distinct (expired_clients now s)"
  by (simp add: expired_clients_def distinct_map_filter)

lemma expired_clients_dom:
  "set (expired_clients now s) \<subseteq> dom (map_of (leases_by_client s))"
  by (auto simp: expired_clients_def dom_map_of_conv_image_fst)

lemma expire_loop_expired_ok:
  "pool_wf s \<Longrightarrow> fst (expire_loop (expired_clients now s) s) = Inr ()"
  by (simp add: expire_loop_ok expired_clients_distinct expired_clients_dom pool_wf_def)

lemma expire_ok:
  "pool_wf s \<Longrightarrow> fst (expire now s) = Inr (length (expired_clients now s))"
  using expire_loop_expired_ok[of s now]
  by (auto simp: expire_def split: prod.splits sum.splits)

lemma expire_snd: "snd (expire now s) = snd (expire_loop (expired_clients now s) s)"
  by (auto simp: expire_def split: prod.splits sum.splits)

lemma expire_wf: "pool_wf s \<Longrightarrow> pool_wf (snd (expire now s))"
  by (simp add: expire_snd expire_loop_wf)

lemma expire_by_client:
  assumes "pool_wf s"
  shows "leases_by_client (snd (expire now s)) =
         filter (\<lambda>(c, r). now < expiry (lease_objs s ! r)) (leases_by_client s)"
proof -
  have d: "distinct (map fst (leases_by_client s))" using assms by (simp add: pool_wf_def)
  have "leases_by_client (snd (expire now s)) =
        filter (\<lambda>p. fst p \<notin> set (expired_clients now s)) (leases_by_client s)"
    by (simp add: expire_snd expire_loop_by_client expire_loop_expired_ok[OF assms])
  also have "\<dots> = filter (\<lambda>(c, r). now < expiry (lease_objs s ! r)) (leases_by_client s)"
  proof (rule filter_cong[OF refl])
    fix p assume p: "p \<in> set (leases_by_client s)"
    obtain c r where cr: "p = (c, r)" by (cases p)
    have "c \<in> set (expired_clients now s) \<longleftrightarrow> expiry (lease_objs s ! r) \<le> now"
    proof
      assume "c \<in> set (expired_clients now s)"
      then obtain r' where "(c, r') \<in> set (leases_by_client s)" "expiry (lease_objs s ! r') \<le> now"
        by (auto simp: expired_clients_def)
      moreover have "r' = r" using d p cr calculation(1) by (metis map_of_is_SomeI option.inject)
      ultimately show "expiry (lease_objs s ! r) \<le> now" by simp
    next
      assume "expiry (lease_objs s ! r) \<le> now"
      then show "c \<in> set (expired_clients now s)"
        using p cr by (force simp: expired_clients_def)
    qed
    then show "(fst p \<notin> set (expired_clients now s)) = (case p of (c, r) \<Rightarrow> now < expiry (lease_objs s ! r))"
      using cr by auto
  qed
  finally show ?thesis .
qed


lemma expire_objs [simp]:
  "lease_objs (snd (expire now s)) = lease_objs s"
  "lease_seconds (snd (expire now s)) = lease_seconds s"
  by (simp_all add: expire_snd)

lemma expire_live:
  assumes "pool_wf s"
  shows "map_of (leases_by_client (snd (expire now s))) c = Some r \<longleftrightarrow>
         map_of (leases_by_client s) c = Some r \<and> now < expiry (lease_objs s ! r)"
proof -
  have d: "distinct (map fst (leases_by_client s))" using assms by (simp add: pool_wf_def)
  have d': "distinct (map fst (leases_by_client (snd (expire now s))))"
    using expire_wf[OF assms, of now] by (simp add: pool_wf_def)
  show ?thesis
    using d d' by (auto simp: expire_by_client[OF assms])
qed

lemma expired_clients_after_expire:
  "pool_wf s \<Longrightarrow> expired_clients now (snd (expire now s)) = []"
  by (auto simp: expired_clients_def expire_by_client filter_empty_conv)

lemma expire_idem:
  "pool_wf s \<Longrightarrow> expire now (snd (expire now s)) = (Inr 0, snd (expire now s))"
  using expired_clients_after_expire[of s now]
  by (simp add: expire_def[of now "snd (expire now s)"])

lemma allocate_new_Cons:
  "available s = a # rest \<Longrightarrow> map_of (leases_by_ip s) a = None \<Longrightarrow>
   allocate_new cid now s =
     (Inr a,
      s\<lparr> available := rest,
         lease_objs := lease_objs s @ [\<lparr> client_id = cid, ip = a, expiry = now + lease_seconds s \<rparr>],
         leases_by_client := AList.update cid (length (lease_objs s)) (leases_by_client s),
         leases_by_ip := AList.update a (length (lease_objs s)) (leases_by_ip s) \<rparr>)"
  by (simp add: allocate_new_def commit_lease_def Let_def)

lemma allocate_new_Nil:
  "available s = [] \<Longrightarrow> allocate_new cid now s = (Inl ResourceExhausted, s)"
  by (simp add: allocate_new_def)

lemma allocate_new_wf:
  assumes "pool_wf s" "map_of (leases_by_client s) cid = None"
  shows "pool_wf (snd (allocate_new cid now s))"
proof (cases "available s")
  case Nil
  then show ?thesis using assms by (simp add: allocate_new_Nil)
next
  case (Cons a rest)
  have a: "map_of (leases_by_ip s) a = None" using assms(1) Cons by (simp add: pool_wf_def)
  show ?thesis
    using assms a Cons unfolding allocate_new_Cons[OF Cons a] pool_wf_alt
    by (auto simp: AList.update_conv' AList.distinct_update nth_append less_SucI simp del: map_of_eq_Some_iff)
qed

lemma allocate_new_parts:
  assumes "pool_wf s"
  shows "pool_parts (snd (allocate_new cid now s)) = pool_parts s"
proof (cases "available s")
  case Nil
  then show ?thesis using assms by (simp add: allocate_new_Nil)
next
  case (Cons a rest)
  have a: "map_of (leases_by_ip s) a = None" using assms(1) Cons by (simp add: pool_wf_def)
  show ?thesis
    using Cons unfolding allocate_new_Cons[OF Cons a] leased_def pool_parts_def
    by (auto simp: AList.dom_update)
qed

lemma request_unfold:
  assumes "pool_wf s"
  shows "request cid now s =
     (case map_of (leases_by_client (snd (expire now s))) cid of
        None \<Rightarrow> allocate_new cid now (snd (expire now s))
      | Some r \<Rightarrow> (Inr (ip (lease_objs s ! r)), snd (expire now s)))"
proof -
  obtain s1 where e: "expire now s = (Inr (length (expired_clients now s)), s1)"
    using expire_ok[OF assms, of now] by (cases "expire now s") auto
  have o: "lease_objs s1 = lease_objs s" using expire_objs(1)[of now s] e by simp
  show ?thesis
    using expire_live[OF assms, of now cid] e o
    by (auto simp: request_def split: option.splits)
qed

lemma request_wf: "pool_wf s \<Longrightarrow> pool_wf (snd (request cid now s))"
  by (auto simp: request_unfold expire_wf allocate_new_wf split: option.splits)

lemma expire_parts: "pool_wf s \<Longrightarrow> pool_parts (snd (expire now s)) = pool_parts s"
  by (simp add: expire_snd expire_loop_parts)

lemma request_parts:
  "pool_wf s \<Longrightarrow> pool_parts (snd (request cid now s)) = pool_parts s"
  by (simp add: request_unfold expire_wf allocate_new_parts expire_parts split: option.splits)

lemma set_expiry_nth:
  "client_id (xs[r := (xs ! r)\<lparr> expiry := e \<rparr>] ! i) = client_id (xs ! i)"
  "ip (xs[r := (xs ! r)\<lparr> expiry := e \<rparr>] ! i) = ip (xs ! i)"
proof -
  show "client_id (xs[r := (xs ! r)\<lparr> expiry := e \<rparr>] ! i) = client_id (xs ! i)"
    by (cases "r < length xs") (simp_all add: nth_list_update list_update_beyond not_less)
  show "ip (xs[r := (xs ! r)\<lparr> expiry := e \<rparr>] ! i) = ip (xs ! i)"
    by (cases "r < length xs") (simp_all add: nth_list_update list_update_beyond not_less)
qed

lemma set_expiry_wf:
  "pool_wf s \<Longrightarrow>
   pool_wf (s\<lparr> lease_objs := (lease_objs s)[r := (lease_objs s ! r)\<lparr> expiry := e \<rparr>] \<rparr>)"
  unfolding pool_wf_def by (simp add: set_expiry_nth del: map_of_eq_Some_iff)


lemma renew_unfold:
  assumes "pool_wf s"
  shows "renew cid now s =
     (case map_of (leases_by_client (snd (expire now s))) cid of
        None \<Rightarrow> allocate_new cid now (snd (expire now s))
      | Some r \<Rightarrow>
          (Inr (ip (lease_objs s ! r)),
           (snd (expire now s))\<lparr> lease_objs := (lease_objs s)
              [r := (lease_objs s ! r)\<lparr> expiry := now + lease_seconds s \<rparr>] \<rparr>))"
proof -
  obtain s1 where e: "expire now s = (Inr (length (expired_clients now s)), s1)"
    using expire_ok[OF assms, of now] by (cases "expire now s") auto
  have o: "lease_objs s1 = lease_objs s" "lease_seconds s1 = lease_seconds s"
    using expire_objs[of now s] e by simp_all
  have w1: "pool_wf s1" using expire_wf[OF assms, of now] e by simp
  have i: "snd (expire now s1) = s1" using expire_idem[OF assms, of now] e by simp
  have "map_of (leases_by_client s1) cid = None \<Longrightarrow> request cid now s1 = allocate_new cid now s1"
    by (simp add: request_unfold[OF w1] i)
  then show ?thesis
    using expire_live[OF assms, of now cid] e o
    by (auto simp: renew_def split: option.splits)
qed

lemma renew_wf:
  assumes "pool_wf s"
  shows "pool_wf (snd (renew cid now s))"
proof (cases "map_of (leases_by_client (snd (expire now s))) cid")
  case None
  then show ?thesis
    by (simp add: renew_unfold[OF assms] allocate_new_wf expire_wf[OF assms])
next
  case (Some r)
  then show ?thesis
    using set_expiry_wf[OF expire_wf[OF assms], of now r "now + lease_seconds s"]
    by (simp add: renew_unfold[OF assms])
qed

lemma set_expiry_parts:
  "pool_parts (s\<lparr> lease_objs := objs \<rparr>) = pool_parts s"
  by (simp add: pool_parts_def leased_def)

lemma renew_parts:
  "pool_wf s \<Longrightarrow> pool_parts (snd (renew cid now s)) = pool_parts s"
  by (simp add: renew_unfold expire_wf allocate_new_parts expire_parts set_expiry_parts split: option.splits)




lemma pool_step_wf: "pool_wf s \<Longrightarrow> pool_wf (pool_step x s)"
  by (cases x) (simp_all add: request_wf renew_wf release_wf expire_wf)

lemma pool_step_parts:
  "pool_wf s \<Longrightarrow> pool_parts (pool_step x s) = pool_parts s"
  by (cases x) (simp_all add: request_parts renew_parts release_parts expire_parts)

lemma pool_run_wf: "pool_wf s \<Longrightarrow> pool_wf (pool_run xs s)"
  by (induction xs arbitrary: s) (simp_all add: pool_step_wf)

lemma pool_run_parts:
  "pool_wf s \<Longrightarrow> pool_parts (pool_run xs s) = pool_parts s"
  by (induction xs arbitrary: s) (simp_all add: pool_step_wf pool_step_parts)

lemma distinct_hosts: "distinct (hosts addr prefixlen)"
  by (simp add: hosts_def)

lemma LeasePool_init_wf: "LeasePool_init addr prefixlen ls excl = Inr p \<Longrightarrow> pool_wf p"
  by (auto simp: LeasePool_init_def pool_wf_def Let_def distinct_hosts split: if_splits)

lemma LeasePool_init_fields:
  "LeasePool_init addr prefixlen ls excl = Inr p \<Longrightarrow>
   leases_by_ip p = [] \<and> leases_by_client p = [] \<and> lease_seconds p = ls \<and>
   available p = filter (\<lambda>a. a \<notin> set excl \<and> a \<noteq> hd (hosts addr prefixlen)) (hosts addr prefixlen)"
  by (auto simp: LeasePool_init_def Let_def split: if_splits intro: filter_cong)

lemma wf_leased_by_client:
  "pool_wf s \<Longrightarrow> leased s = (\<lambda>(c, r). ip (lease_objs s ! r)) ` set (leases_by_client s)"
proof (rule set_eqI)
  fix a
  assume w: "pool_wf s"
  show "a \<in> leased s \<longleftrightarrow> a \<in> (\<lambda>(c, r). ip (lease_objs s ! r)) ` set (leases_by_client s)"
  proof
    assume "a \<in> leased s"
    then obtain r where "(a, r) \<in> set (leases_by_ip s)" by (auto simp: leased_def)
    then have "ip (lease_objs s ! r) = a" "(client_id (lease_objs s ! r), r) \<in> set (leases_by_client s)"
      using w by (auto simp: pool_wf_def)
    then show "a \<in> (\<lambda>(c, r). ip (lease_objs s ! r)) ` set (leases_by_client s)" by force
  next
    assume "a \<in> (\<lambda>(c, r). ip (lease_objs s ! r)) ` set (leases_by_client s)"
    then obtain c r where "(c, r) \<in> set (leases_by_client s)" "a = ip (lease_objs s ! r)" by auto
    then have "(a, r) \<in> set (leases_by_ip s)" using w by (auto simp: pool_wf_def)
    then show "a \<in> leased s" by (force simp: leased_def)
  qed
qed



lemma expire_loop_error:
  "fst (expire_loop cids s) = Inl e \<Longrightarrow> e = KeyError"
  by (induction cids arbitrary: s) (auto simp: expire_loop_Cons split: option.splits simp del: expire_loop.simps(2))

lemma expire_loop_length_available:
  "fst (expire_loop cids s) = Inr u \<Longrightarrow>
   length (available (snd (expire_loop cids s))) = length (available s) + length cids"
  using expire_loop_available[of cids s] by auto

lemma request_exhausted_unchanged:
  assumes "request cid now s = (Inl ResourceExhausted, s')"
  shows "s' = s"
proof (cases "expire_loop (expired_clients now s) s")
  case (Pair res s1)
  show ?thesis
  proof (cases res)
    case (Inl e)
    then have "e = KeyError" using expire_loop_error[of "expired_clients now s" s e] Pair by simp
    then show ?thesis using assms Pair Inl by (simp add: request_def expire_def)
  next
    case (Inr u)
    have len: "length (available s1) = length (available s) + length (expired_clients now s)"
      using expire_loop_length_available[of "expired_clients now s" s u] Pair Inr by simp
    have r: "request cid now s =
       (case map_of (leases_by_client s1) cid of
             None \<Rightarrow> allocate_new cid now s1
           | Some r \<Rightarrow>
               if now < expiry (lease_objs s1 ! r) then (Inr (ip (lease_objs s1 ! r)), s1)
               else allocate_new cid now s1)"
      using Pair Inr by (simp add: request_def expire_def)
    have a: "allocate_new cid now s1 = (Inl ResourceExhausted, s')"
      using assms r by (auto split: option.splits if_splits)
    then have "available s1 = [] \<and> s' = s1"
      by (cases "available s1") (auto simp: allocate_new_def)
    then have "expired_clients now s = []" "s' = s1" using len by auto
    then show ?thesis using Pair by simp
  qed
qed

lemma wf_lease_ips_distinct:
  assumes "pool_wf s"
  shows "distinct (map (\<lambda>(c, r). ip (lease_objs s ! r)) (leases_by_client s))"
proof -
  have d: "distinct (leases_by_client s)"
    using assms by (simp add: pool_wf_def distinct_map)
  have "inj_on (\<lambda>(c, r). ip (lease_objs s ! r)) (set (leases_by_client s))"
  proof (rule inj_onI)
    fix x y
    assume x: "x \<in> set (leases_by_client s)" and y: "y \<in> set (leases_by_client s)"
      and e: "(case x of (c, r) \<Rightarrow> ip (lease_objs s ! r)) = (case y of (c, r) \<Rightarrow> ip (lease_objs s ! r))"
    obtain c r where xr: "x = (c, r)" by (cases x)
    obtain c' r' where yr: "y = (c', r')" by (cases y)
    have 1: "map_of (leases_by_ip s) (ip (lease_objs s ! r)) = Some r" "client_id (lease_objs s ! r) = c"
      using assms x xr by (auto simp: pool_wf_def)
    have 2: "map_of (leases_by_ip s) (ip (lease_objs s ! r')) = Some r'" "client_id (lease_objs s ! r') = c'"
      using assms y yr by (auto simp: pool_wf_def)
    from e xr yr have ipeq: "ip (lease_objs s ! r) = ip (lease_objs s ! r')" by simp
    have rr: "r = r'" using 1(1) 2(1) ipeq by (metis option.inject)
    have "c = c'" using 1(2) 2(2) rr by (metis)
    with rr show "x = y" using xr yr by (simp only:)
  qed
  with d show ?thesis by (simp add: distinct_map)
qed

lemma hosts_8_29: "hosts 8 29 = [9, 10, 11, 12, 13, 14]"
  by code_simp

lemma init_8_29:
  "LeasePool_init 8 29 100 [] =
     Inr \<lparr> net = (8, 29), lease_seconds = 100, lease_objs = [],
            available = [10, 11, 12, 13, 14], leases_by_client = [], leases_by_ip = [] \<rparr>"
  by (simp add: LeasePool_init_def hosts_8_29 network_address_def Let_def)

lemma empty_pool_step:
  "available s = [] \<Longrightarrow> leases_by_client s = [] \<Longrightarrow> pool_step x s = s"
  by (cases x) (simp_all add: request_def renew_def release_def expire_def expired_clients_def allocate_new_def)

lemma empty_pool_run:
  "available s = [] \<Longrightarrow> leases_by_client s = [] \<Longrightarrow> pool_run xs s = s"
  by (induction xs) (simp_all add: empty_pool_step)

lemma empty_pool_request:
  "available s = [] \<Longrightarrow> leases_by_client s = [] \<Longrightarrow> request cid now s = (Inl ResourceExhausted, s)"
  by (simp add: request_def expire_def expired_clients_def allocate_new_def)

lemma request_result_lease:
  assumes "pool_wf s" "request c t s = (Inr a, s1)"
  shows "\<exists>r. map_of (leases_by_client s1) c = Some r \<and> ip (lease_objs s1 ! r) = a"
proof (cases "map_of (leases_by_client (snd (expire t s))) c")
  case (Some r)
  then show ?thesis using assms by (auto simp: request_unfold[OF assms(1)])
next
  case None
  let ?e = "snd (expire t s)"
  have al: "allocate_new c t ?e = (Inr a, s1)"
    using assms None by (simp add: request_unfold[OF assms(1)])
  then obtain rest where av: "available ?e = a # rest"
    by (cases "available ?e") (auto simp: allocate_new_def)
  have "pool_wf ?e" by (rule expire_wf[OF assms(1)])
  then have ai: "map_of (leases_by_ip ?e) a = None" using av by (simp add: pool_wf_def)
  show ?thesis
    using al unfolding allocate_new_Cons[OF av ai]
    by (auto simp: AList.update_conv')
qed

lemma request_live:
  assumes "pool_wf s" "map_of (leases_by_client s) c = Some r" "t < expiry (lease_objs s ! r)"
  shows "request c t s = (Inr (ip (lease_objs s ! r)), snd (expire t s))"
    and "map_of (leases_by_client (snd (expire t s))) c = Some r"
    and "lease_objs (snd (expire t s)) = lease_objs s"
proof -
  show l: "map_of (leases_by_client (snd (expire t s))) c = Some r"
    using assms by (simp add: expire_live[OF assms(1)])
  show "request c t s = (Inr (ip (lease_objs s ! r)), snd (expire t s))"
    using l by (simp add: request_unfold[OF assms(1)])
  show "lease_objs (snd (expire t s)) = lease_objs s" by simp
qed











lemma allocate_new_lease_seconds [simp]:
  "lease_seconds (snd (allocate_new c now s)) = lease_seconds s"
  by (simp add: allocate_new_def commit_lease_def Let_def split: list.splits option.splits)

lemma request_lease_seconds [simp]:
  "lease_seconds (snd (request c now s)) = lease_seconds s"
proof -
  have "lease_seconds (snd (expire now s)) = lease_seconds s" by simp
  then show ?thesis
    by (cases "expire now s") (auto simp: request_def split: sum.splits option.splits)
qed

lemma renew_lease_seconds [simp]:
  "lease_seconds (snd (renew c now s)) = lease_seconds s"
proof -
  have e: "lease_seconds (snd (expire now s)) = lease_seconds s" by simp
  have "\<And>s1. lease_seconds (snd (request c now s1)) = lease_seconds s1" by simp
  then show ?thesis
    using e
    by (cases "expire now s") (auto simp: renew_def split: sum.splits option.splits)
qed

lemma pool_step_lease_seconds [simp]: "lease_seconds (pool_step x s) = lease_seconds s"
  by (cases x) simp_all

lemma pool_run_lease_seconds [simp]: "lease_seconds (pool_run xs s) = lease_seconds s"
  by (induction xs arbitrary: s) simp_all





lemma init_pool_8_29: "LeasePool_init 8 29 100 [] = Inr pool_8_29"
  by (simp add: init_8_29 pool_8_29_def)

lemma request_a_0: "request ''a'' 0 pool_8_29 = (Inr 10, pool_8_29_a)"
  by (simp add: request_def expire_def expired_clients_def allocate_new_def commit_lease_def
      pool_8_29_def pool_8_29_a_def)

lemma run_request_a_0: "pool_run [Request ''a'' 0] pool_8_29 = pool_8_29_a"
  by (simp add: request_a_0)

lemma release_absent: "map_of (leases_by_client s) c = None \<Longrightarrow> release c s = s"
  by (simp add: release_def)

lemma release_present:
  "map_of (leases_by_client s) c = Some r \<Longrightarrow>
   available (release c s) = available s @ [ip (lease_objs s ! r)] \<and>
   map_of (leases_by_client (release c s)) c = None"
  by (simp add: release_def AList.delete_conv')

lemma lease_ips_release:
  "c \<notin> set cs \<Longrightarrow> lease_ips (release c s) cs = lease_ips s cs"
  by (induction cs) (auto simp: release_by_client split: option.splits)

lemma releases_available:
  "distinct cs \<Longrightarrow> available (pool_run (map Release cs) s) = available s @ lease_ips s cs"
proof (induction cs arbitrary: s)
  case Nil
  then show ?case by simp
next
  case (Cons c cs)
  have "available (pool_run (map Release cs) (release c s)) =
        available (release c s) @ lease_ips s cs"
    using Cons.IH[of "release c s"] Cons.prems by (simp add: lease_ips_release)
  then show ?case
    by (cases "map_of (leases_by_client s) c") (simp_all add: release_absent release_present)
qed

lemma expire_available:
  "\<exists>ys. available (snd (expire now s)) = available s @ ys"
  using expire_loop_available[of "expired_clients now s" s] by (auto simp: expire_snd)

lemma expire_by_client_subset:
  "pool_wf s \<Longrightarrow> set (leases_by_client (snd (expire now s))) \<subseteq> set (leases_by_client s)"
  by (auto simp: expire_by_client)

lemma request_fresh:
  assumes "pool_wf s" "map_of (leases_by_client s) c = None" "available s = a # rest"
  shows "\<exists>s' ys. request c t s = (Inr a, s') \<and> available s' = rest @ ys \<and>
           fst ` set (leases_by_client s') \<subseteq> insert c (fst ` set (leases_by_client s))"
proof -
  let ?e = "snd (expire t s)"
  have we: "pool_wf ?e" by (rule expire_wf[OF assms(1)])
  have n: "map_of (leases_by_client ?e) c = None"
  proof (cases "map_of (leases_by_client ?e) c")
    case (Some r)
    then show ?thesis using expire_live[OF assms(1), of t c r] assms(2) by simp
  qed simp
  obtain ys where av: "available ?e = a # (rest @ ys)"
    using expire_available[of t s] assms(3) by auto
  have ai: "map_of (leases_by_ip ?e) a = None" using we av by (simp add: pool_wf_def)
  have sub: "fst ` set (leases_by_client ?e) \<subseteq> fst ` set (leases_by_client s)"
    using expire_by_client_subset[OF assms(1), of t] by auto
  have "request c t s = allocate_new c t ?e"
    using n by (simp add: request_unfold[OF assms(1)])
  then show ?thesis
    using sub unfolding allocate_new_Cons[OF av ai]
    by (auto simp: AList.dom_update)
qed

lemma requests_fifo:
  "pool_wf s \<Longrightarrow> distinct (map fst reqs) \<Longrightarrow>
   fst ` set reqs \<inter> fst ` set (leases_by_client s) = {} \<Longrightarrow>
   length reqs \<le> length (available s) \<Longrightarrow>
   requests reqs s = map Inr (take (length reqs) (available s))"
proof (induction reqs arbitrary: s)
  case Nil
  then show ?case by simp
next
  case (Cons x xs)
  obtain c t where x: "x = (c, t)" by (cases x)
  obtain a rest where av: "available s = a # rest"
    using Cons.prems(4) by (cases "available s") auto
  have n: "map_of (leases_by_client s) c = None"
    using Cons.prems(3) x by (auto simp: map_of_eq_None_iff)
  obtain s' ys where r: "request c t s = (Inr a, s')" "available s' = rest @ ys"
      "fst ` set (leases_by_client s') \<subseteq> insert c (fst ` set (leases_by_client s))"
    using request_fresh[OF Cons.prems(1) n av, of t] by blast
  have w': "pool_wf s'" using request_wf[OF Cons.prems(1), of c t] r(1) by simp
  have d': "distinct (map fst xs)" using Cons.prems(2) by simp
  have "fst ` set xs \<inter> insert c (fst ` set (leases_by_client s)) = {}"
    using Cons.prems(2,3) x by auto
  then have i': "fst ` set xs \<inter> fst ` set (leases_by_client s') = {}"
    using r(3) by blast
  have l': "length xs \<le> length (available s')" using Cons.prems(4) av r(2) by simp
  have "requests xs s' = map Inr (take (length xs) (available s'))"
    by (rule Cons.IH[OF w' d' i' l'])
  also have "take (length xs) (available s') = take (length xs) rest"
    using Cons.prems(4) av r(2) by simp
  finally show ?case using x r(1) av by simp
qed

lemma queue_shape_init: "queue_shape init init"
  unfolding queue_shape_def by (rule exI[of _ 0]) simp

lemma queue_shape_append:
  assumes "queue_shape init q" "set ys \<subseteq> set init" "set ys \<inter> set q = {}"
  shows "queue_shape init (q @ ys)"
proof -
  obtain k ret where q: "q = drop k init @ ret" "set ret \<subseteq> set (take k init)"
    using assms(1) unfolding queue_shape_def by blast
  have "set init = set (take k init) \<union> set (drop k init)"
    by (metis append_take_drop_id set_append)
  then have "set ys \<subseteq> set (take k init)" using assms(2,3) q(1) by auto
  then show ?thesis
    unfolding queue_shape_def using q by (intro exI[of _ k] exI[of _ "ret @ ys"]) simp
qed

lemma queue_shape_tl:
  assumes "queue_shape init (a # q)"
  shows "queue_shape init q"
proof -
  obtain k ret where q: "a # q = drop k init @ ret" "set ret \<subseteq> set (take k init)"
    using assms(1) unfolding queue_shape_def by blast
  show ?thesis
  proof (cases "drop k init")
    case Nil
    then have "q = drop k init @ tl ret" "set (tl ret) \<subseteq> set (take k init)"
      using q by (cases ret; auto)+
    then show ?thesis unfolding queue_shape_def by blast
  next
    case (Cons b rest)
    then have k: "k < length init" by (cases "k < length init") auto
    have "drop (Suc k) init = rest" using Cons by (metis drop_Suc tl_drop list.sel(3))
    then have 1: "q = drop (Suc k) init @ ret" using q(1) Cons by simp
    have "set (take k init) \<subseteq> set (take (Suc k) init)"
      by (simp add: set_take_subset_set_take)
    then have 2: "set ret \<subseteq> set (take (Suc k) init)" using q(2) by blast
    show ?thesis unfolding queue_shape_def using 1 2 by blast
  qed
qed

lemma wf_parts_split:
  assumes "pool_wf s"
  shows "set (available s) \<inter> leased s = {}"
  using assms unfolding pool_wf_def leased_def
  by (auto simp: dom_map_of_conv_image_fst[symmetric] simp del: map_of_eq_Some_iff)

lemma release_shape:
  assumes "pool_wf s" "pool_parts s = set init" "queue_shape init (available s)"
  shows "queue_shape init (available (release c s))"
proof (cases "map_of (leases_by_client s) c")
  case None
  then show ?thesis using assms(3) by (simp add: release_absent)
next
  case (Some r)
  have "(c, r) \<in> set (leases_by_client s)" using Some by (rule map_of_SomeD)
  then have "map_of (leases_by_ip s) (ip (lease_objs s ! r)) = Some r"
    using assms(1) by (auto simp: pool_wf_def)
  then have l: "ip (lease_objs s ! r) \<in> leased s"
    by (force simp: leased_def dest: map_of_SomeD)
  have "set [ip (lease_objs s ! r)] \<subseteq> set init" using l assms(2) by (auto simp: pool_parts_def)
  moreover have "set [ip (lease_objs s ! r)] \<inter> set (available s) = {}"
    using l wf_parts_split[OF assms(1)] by auto
  ultimately show ?thesis
    using queue_shape_append[OF assms(3)] release_present[OF Some] by simp
qed

lemma expire_shape:
  assumes "pool_wf s" "pool_parts s = set init" "queue_shape init (available s)"
  shows "queue_shape init (available (snd (expire now s)))"
proof -
  obtain ys where ys: "available (snd (expire now s)) = available s @ ys"
    using expire_available[of now s] by blast
  have w: "pool_wf (snd (expire now s))" by (rule expire_wf[OF assms(1)])
  have "set (available s @ ys) \<subseteq> set init"
    using expire_parts[OF assms(1), of now] assms(2) ys by (auto simp: pool_parts_def)
  then have 1: "set ys \<subseteq> set init" by simp
  have "distinct (available s @ ys)" using w ys by (simp add: pool_wf_def)
  then have 2: "set ys \<inter> set (available s) = {}" by auto
  show ?thesis using queue_shape_append[OF assms(3) 1 2] ys by simp
qed

lemma allocate_new_shape:
  assumes "pool_wf s" "queue_shape init (available s)"
  shows "queue_shape init (available (snd (allocate_new c now s)))"
proof (cases "available s")
  case Nil
  then show ?thesis using assms by (simp add: allocate_new_Nil)
next
  case (Cons a rest)
  have a: "map_of (leases_by_ip s) a = None" using assms(1) Cons by (simp add: pool_wf_def)
  show ?thesis
    using queue_shape_tl[of init a rest] assms(2) Cons
    unfolding allocate_new_Cons[OF Cons a] by simp
qed

lemma request_shape:
  assumes "pool_wf s" "pool_parts s = set init" "queue_shape init (available s)"
  shows "queue_shape init (available (snd (request c now s)))"
  using expire_shape[OF assms, of now]
    allocate_new_shape[OF expire_wf[OF assms(1)] expire_shape[OF assms], where c=c and now=now and now1=now]
  by (simp add: request_unfold[OF assms(1)] split: option.splits)

lemma renew_shape:
  assumes "pool_wf s" "pool_parts s = set init" "queue_shape init (available s)"
  shows "queue_shape init (available (snd (renew c now s)))"
  using expire_shape[OF assms, of now]
    allocate_new_shape[OF expire_wf[OF assms(1)] expire_shape[OF assms], where c=c and now=now and now1=now]
  by (simp add: renew_unfold[OF assms(1)] split: option.splits)

lemma pool_step_shape:
  "pool_wf s \<Longrightarrow> pool_parts s = set init \<Longrightarrow> queue_shape init (available s) \<Longrightarrow>
   queue_shape init (available (pool_step x s))"
  by (cases x) (simp_all add: request_shape renew_shape release_shape expire_shape)

lemma pool_run_shape:
  "pool_wf s \<Longrightarrow> pool_parts s = set init \<Longrightarrow> queue_shape init (available s) \<Longrightarrow>
   queue_shape init (available (pool_run xs s))"
  by (induction xs arbitrary: s) (simp_all add: pool_step_wf pool_step_parts pool_step_shape)

lemma request_b_1: "request ''b'' 1 pool_8_29_a = (Inr 11, pool_8_29_ab)"
  by (simp add: request_def expire_def expired_clients_def allocate_new_def commit_lease_def
      pool_8_29_a_def pool_8_29_ab_def)

lemma release_a: "release ''a'' pool_8_29_ab = pool_8_29_b"
  by (simp add: release_def pool_8_29_ab_def pool_8_29_b_def)

lemma run_ab: "pool_run [Request ''a'' 0, Request ''b'' 1] pool_8_29 = pool_8_29_ab"
  by (simp add: request_a_0 request_b_1)

lemma expire_exact:
  assumes "pool_wf s"
  shows "expire now s =
           (Inr (length (filter (\<lambda>(c, r). expiry (lease_objs s ! r) \<le> now) (leases_by_client s))),
            snd (expire now s))"
    and "expire now (snd (expire now s)) = (Inr 0, snd (expire now s))"
proof -
  show "expire now s =
           (Inr (length (filter (\<lambda>(c, r). expiry (lease_objs s ! r) \<le> now) (leases_by_client s))),
            snd (expire now s))"
    using expire_ok[OF assms, of now] by (cases "expire now s") (simp add: expired_clients_def)
  show "expire now (snd (expire now s)) = (Inr 0, snd (expire now s))"
    by (rule expire_idem[OF assms])
qed

lemma expire_reclaims:
  assumes "pool_wf s" "(c, r) \<in> set (leases_by_client s)" "expiry (lease_objs s ! r) \<le> now"
  shows "ip (lease_objs s ! r) \<in> set (available (snd (expire now s)))"
    and "map_of (leases_by_client (snd (expire now s))) c = None"
    and "map_of (leases_by_ip (snd (expire now s))) (ip (lease_objs s ! r)) = None"
proof -
  let ?e = "snd (expire now s)"
  let ?a = "ip (lease_objs s ! r)"
  have we: "pool_wf ?e" by (rule expire_wf[OF assms(1)])
  have ar: "map_of (leases_by_ip s) ?a = Some r" using assms(1,2) by (auto simp: pool_wf_def)
  then have "?a \<in> leased s" by (force simp: leased_def dest: map_of_SomeD)
  then have p: "?a \<in> pool_parts ?e"
    using expire_parts[OF assms(1), of now] by (simp add: pool_parts_def)
  have "?a \<notin> leased ?e"
  proof
    assume "?a \<in> leased ?e"
    then obtain c' r' where cr': "(c', r') \<in> set (leases_by_client ?e)" "?a = ip (lease_objs ?e ! r')"
      unfolding wf_leased_by_client[OF we] by auto
    then have live: "(c', r') \<in> set (leases_by_client s)" "now < expiry (lease_objs s ! r')"
      by (auto simp: expire_by_client[OF assms(1)])
    then have "map_of (leases_by_ip s) (ip (lease_objs s ! r')) = Some r'"
      using assms(1) by (auto simp: pool_wf_def)
    then have "r' = r" using ar cr'(2) by simp
    then show False using live(2) assms(3) by simp
  qed
  then show a: "?a \<in> set (available ?e)" using p by (simp add: pool_parts_def)
  show "map_of (leases_by_client ?e) c = None"
  proof (cases "map_of (leases_by_client ?e) c")
    case (Some r')
    then have "map_of (leases_by_client s) c = Some r'" "now < expiry (lease_objs s ! r')"
      using expire_live[OF assms(1), of now c r'] by simp_all
    moreover have "map_of (leases_by_client s) c = Some r"
      using assms(1,2) by (simp add: pool_wf_def)
    ultimately show ?thesis using assms(3) by simp
  qed simp
  show "map_of (leases_by_ip ?e) ?a = None" using we a by (simp add: pool_wf_def)
qed

section \<open>The NAT table keeps its invariants\<close>

lemma nat_wf_alt:
  "nat_wf s \<longleftrightarrow>
     distinct (map fst (int2ext s)) \<and>
     distinct (map fst (ext2int s)) \<and>
     (\<forall>k r. map_of (int2ext s) k = Some r \<longrightarrow>
        r < length (mapping_objs s) \<and> mapping_key (mapping_objs s ! r) = k \<and>
        map_of (ext2int s) (external_port (mapping_objs s ! r)) = Some r) \<and>
     (\<forall>p r. map_of (ext2int s) p = Some r \<longrightarrow>
        r < length (mapping_objs s) \<and> external_port (mapping_objs s ! r) = p \<and>
        pmin s \<le> p \<and> p \<le> pmax s \<and>
        map_of (int2ext s) (mapping_key (mapping_objs s ! r)) = Some r)"
  unfolding nat_wf_def by (auto simp del: map_of_eq_Some_iff dest!: map_of_SomeD) (auto)

lemma set_last_seen_nth:
  "mapping_key (xs[r := (xs ! r)\<lparr> last_seen := t \<rparr>] ! i) = mapping_key (xs ! i)"
  "external_port (xs[r := (xs ! r)\<lparr> last_seen := t \<rparr>] ! i) = external_port (xs ! i)"
proof -
  show "mapping_key (xs[r := (xs ! r)\<lparr> last_seen := t \<rparr>] ! i) = mapping_key (xs ! i)"
    by (cases "r < length xs")
       (simp_all add: nth_list_update list_update_beyond not_less mapping_key_def)
  show "external_port (xs[r := (xs ! r)\<lparr> last_seen := t \<rparr>] ! i) = external_port (xs ! i)"
    by (cases "r < length xs") (simp_all add: nth_list_update list_update_beyond not_less)
qed

lemma set_last_seen_wf:
  "nat_wf s \<Longrightarrow>
   nat_wf (s\<lparr> mapping_objs := (mapping_objs s)[r := (mapping_objs s ! r)\<lparr> last_seen := t \<rparr>] \<rparr>)"
  unfolding nat_wf_def by (simp add: set_last_seen_nth del: map_of_eq_Some_iff)

lemma alloc_scan_append:
  "\<forall>q \<in> set ys. map_of e q \<noteq> None \<Longrightarrow> alloc_scan (ys @ zs) e = alloc_scan zs e"
  by (induction ys) auto

lemma alloc_scan_Inl:
  "alloc_scan ps e = Inl x \<longleftrightarrow> x = PortExhausted \<and> (\<forall>p \<in> set ps. map_of e p \<noteq> None)"
  by (induction ps) auto

lemma alloc_scan_Inr:
  "alloc_scan ps e = Inr p \<Longrightarrow>
   \<exists>ys zs. ps = ys @ p # zs \<and> map_of e p = None \<and> (\<forall>q \<in> set ys. map_of e q \<noteq> None)"
proof (induction ps)
  case Nil
  then show ?case by simp
next
  case (Cons a ps)
  show ?case
  proof (cases "map_of e a = None")
    case True
    then have "a = p" using Cons.prems by simp
    then show ?thesis using True by (intro exI[of _ "[]"] exI[of _ ps]) simp
  next
    case False
    then obtain ys zs where "ps = ys @ p # zs" "map_of e p = None" "\<forall>q \<in> set ys. map_of e q \<noteq> None"
      using Cons by auto
    then show ?thesis using False by (intro exI[of _ "a # ys"] exI[of _ zs]) simp
  qed
qed

lemma alloc_port_sound:
  assumes "alloc_port s = Inr p"
  shows "pmin s \<le> p \<and> p \<le> pmax s \<and> map_of (ext2int s) p = None \<and>
         (\<forall>q. pmin s \<le> q \<and> q < p \<longrightarrow> map_of (ext2int s) q \<noteq> None)"
proof -
  obtain ys zs where s: "[pmin s .. pmax s] = ys @ p # zs" "map_of (ext2int s) p = None"
     "\<forall>q \<in> set ys. map_of (ext2int s) q \<noteq> None"
    using alloc_scan_Inr[OF assms[unfolded alloc_port_def]] by blast
  have "p \<in> set [pmin s .. pmax s]" using s(1) by simp
  then have r: "pmin s \<le> p" "p \<le> pmax s" by simp_all
  have srt: "sorted (ys @ p # zs)" using s(1) by (metis sorted_upto)
  have "\<And>q. pmin s \<le> q \<Longrightarrow> q < p \<Longrightarrow> q \<in> set ys"
  proof -
    fix q assume q: "pmin s \<le> q" "q < p"
    then have "q \<in> set [pmin s .. pmax s]" using r by simp
    then have "q \<in> set ys \<or> q = p \<or> q \<in> set zs" using s(1) by auto
    moreover have "\<forall>z \<in> set zs. p \<le> z" using srt by (simp add: sorted_append)
    ultimately show "q \<in> set ys" using q(2) by auto
  qed
  then show ?thesis using r s(2,3) by blast
qed

lemma alloc_port_least:
  assumes "pmin s \<le> p" "p \<le> pmax s" "map_of (ext2int s) p = None"
    and "\<forall>q. pmin s \<le> q \<and> q < p \<longrightarrow> map_of (ext2int s) q \<noteq> None"
  shows "alloc_port s = Inr p"
proof -
  have "[pmin s .. pmax s] = [pmin s .. p - 1] @ p # [p + 1 .. pmax s]"
    using assms(1,2) by (rule upto_split3)
  moreover have "\<forall>q \<in> set [pmin s .. p - 1]. map_of (ext2int s) q \<noteq> None"
    using assms(4) by simp
  ultimately show ?thesis
    using assms(3) by (simp add: alloc_port_def alloc_scan_append)
qed

lemma alloc_port_exhausted:
  "alloc_port s = Inl x \<longleftrightarrow>
   x = PortExhausted \<and> (\<forall>p. pmin s \<le> p \<and> p \<le> pmax s \<longrightarrow> map_of (ext2int s) p \<noteq> None)"
  by (auto simp: alloc_port_def alloc_scan_Inl)

lemma translate_out_hit:
  "map_of (int2ext s) (lower U pr, iip, iport) = Some r \<Longrightarrow>
   translate_out U pr iip iport now s =
     (Inr (public_ip s, external_port (mapping_objs s ! r)),
      s\<lparr> mapping_objs := (mapping_objs s)[r := (mapping_objs s ! r)\<lparr> last_seen := now \<rparr>] \<rparr>)"
  by (simp add: translate_out_def)

lemma translate_out_full:
  "map_of (int2ext s) (lower U pr, iip, iport) = None \<Longrightarrow> alloc_port s = Inl e \<Longrightarrow>
   translate_out U pr iip iport now s = (Inl e, s)"
  by (simp add: translate_out_def)

lemma translate_out_new:
  "map_of (int2ext s) (lower U pr, iip, iport) = None \<Longrightarrow> alloc_port s = Inr port \<Longrightarrow>
   translate_out U pr iip iport now s =
     (Inr (public_ip s, port),
      s\<lparr> mapping_objs := mapping_objs s @
            [\<lparr> proto = lower U pr, internal_ip = iip, internal_port = iport,
               external_port = port, last_seen = now \<rparr>],
          int2ext := AList.update (lower U pr, iip, iport) (length (mapping_objs s)) (int2ext s),
          ext2int := AList.update port (length (mapping_objs s)) (ext2int s) \<rparr>)"
  by (simp add: translate_out_def)

lemma new_mapping_wf:
  assumes "nat_wf s" "map_of (int2ext s) k = None" "map_of (ext2int s) port = None"
    "pmin s \<le> port" "port \<le> pmax s" "mapping_key m = k" "external_port m = port"
  shows "nat_wf (s\<lparr> mapping_objs := mapping_objs s @ [m],
          int2ext := AList.update k (length (mapping_objs s)) (int2ext s),
          ext2int := AList.update port (length (mapping_objs s)) (ext2int s) \<rparr>)"
  using assms unfolding nat_wf_alt
  by (auto simp: AList.update_conv' AList.distinct_update nth_append less_SucI
           simp del: map_of_eq_Some_iff, (metis option.distinct(1))+)

lemma translate_out_wf:
  assumes "nat_wf s"
  shows "nat_wf (snd (translate_out U pr iip iport now s))"
proof (cases "map_of (int2ext s) (lower U pr, iip, iport)")
  case (Some r)
  then show ?thesis using set_last_seen_wf[OF assms] by (simp add: translate_out_hit)
next
  case None
  show ?thesis
  proof (cases "alloc_port s")
    case (Inl e)
    then show ?thesis using None assms by (simp add: translate_out_full)
  next
    case (Inr port)
    have "nat_wf (s\<lparr> mapping_objs := mapping_objs s @
            [\<lparr> proto = lower U pr, internal_ip = iip, internal_port = iport,
               external_port = port, last_seen = now \<rparr>],
          int2ext := AList.update (lower U pr, iip, iport) (length (mapping_objs s)) (int2ext s),
          ext2int := AList.update port (length (mapping_objs s)) (ext2int s) \<rparr>)"
      using alloc_port_sound[OF Inr]
      by (intro new_mapping_wf[OF assms None]) (simp_all add: mapping_key_def)
    then show ?thesis using None Inr by (simp add: translate_out_new)
  qed
qed

lemma translate_in_wf: "nat_wf s \<Longrightarrow> nat_wf (snd (translate_in p now s))"
  using set_last_seen_wf[of s]
  by (auto simp: translate_in_def split: option.splits)

lemma touch_by_internal_wf: "nat_wf s \<Longrightarrow> nat_wf (snd (touch_by_internal U pr iip iport now s))"
  using set_last_seen_wf[of s]
  by (auto simp: touch_by_internal_def split: option.splits)

lemma remove_mapping_wf:
  assumes "nat_wf s" "map_of (int2ext s) k = Some r"
  shows "nat_wf (s\<lparr> int2ext := AList.delete k (int2ext s),
              ext2int := AList.delete (external_port (mapping_objs s ! r)) (ext2int s) \<rparr>)"
  using assms unfolding nat_wf_alt
  by (auto simp: AList.delete_conv' AList.distinct_delete simp del: map_of_eq_Some_iff,
      (metis option.inject)+)

lemma nat_release_wf: "nat_wf s \<Longrightarrow> nat_wf (snd (nat_release U pr iip iport s))"
  using remove_mapping_wf[of s "(lower U pr, iip, iport)"]
  by (auto simp: nat_release_def split: option.splits)

lemma remove_port_wf:
  assumes "nat_wf s" "map_of (ext2int s) port = Some r"
  shows "nat_wf (s\<lparr> ext2int := AList.delete port (ext2int s),
              int2ext := AList.delete (mapping_key (mapping_objs s ! r)) (int2ext s) \<rparr>)"
proof -
  have k: "map_of (int2ext s) (mapping_key (mapping_objs s ! r)) = Some r"
     and p: "external_port (mapping_objs s ! r) = port"
    using assms unfolding nat_wf_alt by blast+
  have "s\<lparr> ext2int := AList.delete port (ext2int s),
              int2ext := AList.delete (mapping_key (mapping_objs s ! r)) (int2ext s) \<rparr> =
        s\<lparr> int2ext := AList.delete (mapping_key (mapping_objs s ! r)) (int2ext s),
              ext2int := AList.delete (external_port (mapping_objs s ! r)) (ext2int s) \<rparr>"
    using p by simp
  then show ?thesis using remove_mapping_wf[OF assms(1) k] by simp
qed

lemma nat_expire_loop_wf: "nat_wf s \<Longrightarrow> nat_wf (snd (nat_expire_loop ports s))"
  by (induction ports arbitrary: s) (auto simp: remove_port_wf split: option.splits)

lemma nat_expire_snd: "snd (nat_expire now s) = snd (nat_expire_loop (to_remove now s) s)"
  by (auto simp: nat_expire_def split: prod.splits sum.splits)

lemma nat_expire_wf: "nat_wf s \<Longrightarrow> nat_wf (snd (nat_expire now s))"
  by (simp add: nat_expire_snd nat_expire_loop_wf)

lemma nat_step_wf: "nat_wf s \<Longrightarrow> nat_wf (nat_step U x s)"
  by (cases x)
     (simp_all add: translate_out_wf translate_in_wf touch_by_internal_wf nat_release_wf nat_expire_wf)

lemma nat_run_wf: "nat_wf s \<Longrightarrow> nat_wf (nat_run U xs s)"
  by (induction xs arbitrary: s) (simp_all add: nat_step_wf)

lemma NATTable_init_wf: "NATTable_init pub port_range tmo = Inr t \<Longrightarrow> nat_wf t"
  by (auto simp: NATTable_init_def nat_wf_def split: if_splits)

lemma nat_expire_loop_fields [simp]:
  "mapping_objs (snd (nat_expire_loop ports s)) = mapping_objs s"
  "timeout (snd (nat_expire_loop ports s)) = timeout s"
  "pmin (snd (nat_expire_loop ports s)) = pmin s"
  "pmax (snd (nat_expire_loop ports s)) = pmax s"
  "public_ip (snd (nat_expire_loop ports s)) = public_ip s"
  by (induction ports arbitrary: s) (auto split: option.splits)

lemma nat_expire_fields [simp]:
  "mapping_objs (snd (nat_expire now s)) = mapping_objs s"
  "timeout (snd (nat_expire now s)) = timeout s"
  "pmin (snd (nat_expire now s)) = pmin s"
  "pmax (snd (nat_expire now s)) = pmax s"
  "public_ip (snd (nat_expire now s)) = public_ip s"
  by (simp_all add: nat_expire_snd)

lemma translate_out_range [simp]:
  "pmin (snd (translate_out U pr iip iport now s)) = pmin s"
  "pmax (snd (translate_out U pr iip iport now s)) = pmax s"
  "timeout (snd (translate_out U pr iip iport now s)) = timeout s"
  "public_ip (snd (translate_out U pr iip iport now s)) = public_ip s"
  by (simp_all add: translate_out_def Let_def split: option.splits sum.splits)

lemma translate_in_range [simp]:
  "pmin (snd (translate_in p now s)) = pmin s"
  "pmax (snd (translate_in p now s)) = pmax s"
  "timeout (snd (translate_in p now s)) = timeout s"
  "public_ip (snd (translate_in p now s)) = public_ip s"
  by (simp_all add: translate_in_def split: option.splits)

lemma touch_by_internal_range [simp]:
  "pmin (snd (touch_by_internal U pr iip iport now s)) = pmin s"
  "pmax (snd (touch_by_internal U pr iip iport now s)) = pmax s"
  "timeout (snd (touch_by_internal U pr iip iport now s)) = timeout s"
  "public_ip (snd (touch_by_internal U pr iip iport now s)) = public_ip s"
  by (simp_all add: touch_by_internal_def split: option.splits)

lemma nat_release_range [simp]:
  "pmin (snd (nat_release U pr iip iport s)) = pmin s"
  "pmax (snd (nat_release U pr iip iport s)) = pmax s"
  "timeout (snd (nat_release U pr iip iport s)) = timeout s"
  "public_ip (snd (nat_release U pr iip iport s)) = public_ip s"
  by (simp_all add: nat_release_def split: option.splits)

lemma nat_step_range [simp]:
  "pmin (nat_step U x s) = pmin s" "pmax (nat_step U x s) = pmax s"
  "timeout (nat_step U x s) = timeout s" "public_ip (nat_step U x s) = public_ip s"
  by (cases x; simp)+

lemma nat_run_range [simp]:
  "pmin (nat_run U xs s) = pmin s" "pmax (nat_run U xs s) = pmax s"
  "timeout (nat_run U xs s) = timeout s" "public_ip (nat_run U xs s) = public_ip s"
  by (induction xs arbitrary: s) simp_all

lemma nat_expire_loop_ok:
  "distinct ports \<Longrightarrow> set ports \<subseteq> dom (map_of (ext2int s)) \<Longrightarrow>
   fst (nat_expire_loop ports s) = Inr ()"
proof (induction ports arbitrary: s)
  case Nil
  then show ?case by simp
next
  case (Cons p ports)
  from Cons.prems obtain r where r: "map_of (ext2int s) p = Some r" by auto
  let ?s = "s\<lparr> ext2int := AList.delete p (ext2int s),
              int2ext := AList.delete (mapping_key (mapping_objs s ! r)) (int2ext s) \<rparr>"
  have "set ports \<subseteq> dom (map_of (ext2int ?s))"
    using Cons.prems by (auto simp: AList.delete_conv')
  with Cons.IH[of ?s] Cons.prems r show ?case by simp
qed

lemma nat_expire_loop_ext:
  "fst (nat_expire_loop ports s) = Inr () \<Longrightarrow>
   ext2int (snd (nat_expire_loop ports s)) = filter (\<lambda>p. fst p \<notin> set ports) (ext2int s)"
proof (induction ports arbitrary: s)
  case Nil
  then show ?case by simp
next
  case (Cons p ports)
  then obtain r where r: "map_of (ext2int s) p = Some r"
    by (cases "map_of (ext2int s) p") auto
  let ?s = "s\<lparr> ext2int := AList.delete p (ext2int s),
              int2ext := AList.delete (mapping_key (mapping_objs s ! r)) (int2ext s) \<rparr>"
  have d: "AList.delete p (ext2int s) = filter (\<lambda>q. fst q \<noteq> p) (ext2int s)"
    by (auto simp: AList.delete_eq intro: filter_cong)
  have l: "nat_expire_loop (p # ports) s = nat_expire_loop ports ?s" using r by simp
  have "fst (nat_expire_loop ports ?s) = Inr ()" using Cons.prems l by simp
  then have "ext2int (snd (nat_expire_loop ports ?s)) =
      filter (\<lambda>q. fst q \<notin> set ports) (ext2int ?s)" by (rule Cons.IH)
  also have "\<dots> = filter (\<lambda>q. fst q \<notin> set (p # ports)) (ext2int s)"
    by (simp add: d)
  finally show ?case using l by simp
qed

lemma to_remove_distinct:
  "distinct (map fst (ext2int s)) \<Longrightarrow> distinct (to_remove now s)"
  by (simp add: to_remove_def distinct_map_filter)

lemma to_remove_dom: "set (to_remove now s) \<subseteq> dom (map_of (ext2int s))"
  by (auto simp: to_remove_def dom_map_of_conv_image_fst)

lemma nat_expire_loop_to_remove_ok:
  "nat_wf s \<Longrightarrow> fst (nat_expire_loop (to_remove now s) s) = Inr ()"
  by (simp add: nat_expire_loop_ok to_remove_distinct to_remove_dom nat_wf_def)

lemma nat_expire_ok:
  "nat_wf s \<Longrightarrow> fst (nat_expire now s) = Inr (length (to_remove now s))"
  using nat_expire_loop_to_remove_ok[of s now]
  by (auto simp: nat_expire_def split: prod.splits sum.splits)

lemma nat_expire_ext:
  assumes "nat_wf s"
  shows "ext2int (snd (nat_expire now s)) =
         filter (\<lambda>(p, r). \<not> timeout s \<le> now - last_seen (mapping_objs s ! r)) (ext2int s)"
proof -
  have d: "distinct (map fst (ext2int s))" using assms by (simp add: nat_wf_def)
  have "ext2int (snd (nat_expire now s)) =
        filter (\<lambda>p. fst p \<notin> set (to_remove now s)) (ext2int s)"
    by (simp add: nat_expire_snd nat_expire_loop_ext nat_expire_loop_to_remove_ok[OF assms])
  also have "\<dots> = filter (\<lambda>(p, r). \<not> timeout s \<le> now - last_seen (mapping_objs s ! r)) (ext2int s)"
  proof (rule filter_cong[OF refl])
    fix x assume x: "x \<in> set (ext2int s)"
    obtain p r where pr: "x = (p, r)" by (cases x)
    have "p \<in> set (to_remove now s) \<longleftrightarrow> timeout s \<le> now - last_seen (mapping_objs s ! r)"
    proof
      assume "p \<in> set (to_remove now s)"
      then obtain r' where "(p, r') \<in> set (ext2int s)"
          "timeout s \<le> now - last_seen (mapping_objs s ! r')"
        by (auto simp: to_remove_def)
      moreover have "r' = r" using d x pr calculation(1) by (metis map_of_is_SomeI option.inject)
      ultimately show "timeout s \<le> now - last_seen (mapping_objs s ! r)" by simp
    next
      assume "timeout s \<le> now - last_seen (mapping_objs s ! r)"
      then show "p \<in> set (to_remove now s)"
        using x pr by (force simp: to_remove_def)
    qed
    then show "(fst x \<notin> set (to_remove now s)) =
        (case x of (p, r) \<Rightarrow> \<not> timeout s \<le> now - last_seen (mapping_objs s ! r))"
      using pr by auto
  qed
  finally show ?thesis .
qed

lemma to_remove_after_expire:
  "nat_wf s \<Longrightarrow> to_remove now (snd (nat_expire now s)) = []"
  by (auto simp: to_remove_def nat_expire_ext filter_empty_conv)

lemma nat_expire_idem:
  "nat_wf s \<Longrightarrow> nat_expire now (snd (nat_expire now s)) = (Inr 0, snd (nat_expire now s))"
  using to_remove_after_expire[of s now]
  by (simp add: nat_expire_def[of now "snd (nat_expire now s)"])

lemma nat_wf_int:
  "nat_wf s \<Longrightarrow> map_of (int2ext s) k = Some r \<Longrightarrow>
   r < length (mapping_objs s) \<and> mapping_key (mapping_objs s ! r) = k \<and>
   map_of (ext2int s) (external_port (mapping_objs s ! r)) = Some r"
  by (drule map_of_SomeD) (auto simp: nat_wf_def)

lemma nat_wf_ext:
  "nat_wf s \<Longrightarrow> map_of (ext2int s) p = Some r \<Longrightarrow>
   r < length (mapping_objs s) \<and> external_port (mapping_objs s ! r) = p \<and>
   pmin s \<le> p \<and> p \<le> pmax s \<and>
   map_of (int2ext s) (mapping_key (mapping_objs s ! r)) = Some r"
  by (drule map_of_SomeD) (auto simp: nat_wf_def)

lemma nat_expire_reclaims:
  assumes "nat_wf s" "(p, r) \<in> set (ext2int s)" "timeout s \<le> now - last_seen (mapping_objs s ! r)"
  shows "map_of (ext2int (snd (nat_expire now s))) p = None"
    and "map_of (int2ext (snd (nat_expire now s))) (mapping_key (mapping_objs s ! r)) = None"
proof -
  let ?e = "snd (nat_expire now s)"
  have we: "nat_wf ?e" by (rule nat_expire_wf[OF assms(1)])
  have pr: "map_of (ext2int s) p = Some r" using assms(1,2) by (simp add: nat_wf_def)
  have kr: "map_of (int2ext s) (mapping_key (mapping_objs s ! r)) = Some r"
    using nat_wf_ext[OF assms(1) pr] by blast
  show "map_of (ext2int ?e) p = None"
  proof (cases "map_of (ext2int ?e) p")
    case (Some r')
    then have "(p, r') \<in> set (ext2int ?e)" by (rule map_of_SomeD)
    then have "(p, r') \<in> set (ext2int s)" "\<not> timeout s \<le> now - last_seen (mapping_objs s ! r')"
      by (auto simp: nat_expire_ext[OF assms(1)])
    moreover have "map_of (ext2int s) p = Some r'" using calculation(1) assms(1) by (simp add: nat_wf_def)
    ultimately show ?thesis using pr assms(3) by simp
  qed simp
  show "map_of (int2ext ?e) (mapping_key (mapping_objs s ! r)) = None"
  proof (cases "map_of (int2ext ?e) (mapping_key (mapping_objs s ! r))")
    case (Some r')
    then have 1: "mapping_key (mapping_objs s ! r') = mapping_key (mapping_objs s ! r)"
      and 2: "map_of (ext2int ?e) (external_port (mapping_objs s ! r')) = Some r'"
      using nat_wf_int[OF we Some] by simp_all
    from 2 have "(external_port (mapping_objs s ! r'), r') \<in> set (ext2int ?e)" by (rule map_of_SomeD)
    then have 3: "(external_port (mapping_objs s ! r'), r') \<in> set (ext2int s)"
       and 4: "\<not> timeout s \<le> now - last_seen (mapping_objs s ! r')"
      by (auto simp: nat_expire_ext[OF assms(1)])
    from 3 have "map_of (ext2int s) (external_port (mapping_objs s ! r')) = Some r'"
      using assms(1) by (simp add: nat_wf_def)
    then have "map_of (int2ext s) (mapping_key (mapping_objs s ! r')) = Some r'"
      using nat_wf_ext[OF assms(1)] by blast
    then have "r' = r" using kr 1 by (metis option.inject)
    then show ?thesis using 4 assms(3) by simp
  qed simp
qed

lemma length_filter_snd_card:
  assumes "distinct (map snd xs)"
  shows "length (filter (\<lambda>(k, r). Q r) xs) = card {r \<in> snd ` set xs. Q r}"
proof -
  have "length (filter (\<lambda>(k, r). Q r) xs) = length (filter Q (map snd xs))"
    by (induction xs) auto
  also have "\<dots> = card (set (filter Q (map snd xs)))"
    by (rule distinct_card[symmetric]) (rule distinct_filter[OF assms])
  also have "set (filter Q (map snd xs)) = {r \<in> snd ` set xs. Q r}" by auto
  finally show ?thesis .
qed

lemma pool_wf_distinct_refs:
  assumes "pool_wf s"
  shows "distinct (map snd (leases_by_client s))"
proof -
  have d: "distinct (leases_by_client s)" using assms by (simp add: pool_wf_def distinct_map)
  have "inj_on snd (set (leases_by_client s))"
  proof (rule inj_onI)
    fix x y assume x: "x \<in> set (leases_by_client s)" and y: "y \<in> set (leases_by_client s)"
      and e: "snd x = snd y"
    have "client_id (lease_objs s ! snd x) = fst x" "client_id (lease_objs s ! snd y) = fst y"
      using assms x y by (auto simp: pool_wf_def)
    then show "x = y" using e by (simp add: prod_eq_iff)
  qed
  with d show ?thesis by (simp add: distinct_map)
qed

lemma nat_wf_distinct_refs:
  assumes "nat_wf s"
  shows "distinct (map snd (ext2int s))"
proof -
  have d: "distinct (ext2int s)" using assms by (simp add: nat_wf_def distinct_map)
  have "inj_on snd (set (ext2int s))"
  proof (rule inj_onI)
    fix x y assume x: "x \<in> set (ext2int s)" and y: "y \<in> set (ext2int s)"
      and e: "snd x = snd y"
    have "external_port (mapping_objs s ! snd x) = fst x" "external_port (mapping_objs s ! snd y) = fst y"
      using assms x y by (auto simp: nat_wf_def)
    then show "x = y" using e by (simp add: prod_eq_iff)
  qed
  with d show ?thesis by (simp add: distinct_map)
qed

lemma nat_wf_same_refs:
  assumes "nat_wf s"
  shows "snd ` set (int2ext s) = snd ` set (ext2int s)"
proof (rule set_eqI)
  fix r
  show "r \<in> snd ` set (int2ext s) \<longleftrightarrow> r \<in> snd ` set (ext2int s)"
  proof
    assume "r \<in> snd ` set (int2ext s)"
    then obtain k where "(k, r) \<in> set (int2ext s)" by auto
    then have "map_of (ext2int s) (external_port (mapping_objs s ! r)) = Some r"
      using assms by (auto simp: nat_wf_def)
    then show "r \<in> snd ` set (ext2int s)" by (force dest: map_of_SomeD)
  next
    assume "r \<in> snd ` set (ext2int s)"
    then obtain p where "(p, r) \<in> set (ext2int s)" by auto
    then have "map_of (int2ext s) (mapping_key (mapping_objs s ! r)) = Some r"
      using assms by (auto simp: nat_wf_def)
    then show "r \<in> snd ` set (int2ext s)" by (force dest: map_of_SomeD)
  qed
qed

lemma NATTable_init_fields:
  "NATTable_init pub port_range tmo = Inr t \<Longrightarrow>
   public_ip t = pub \<and> pmin t = fst port_range \<and> pmax t = snd port_range \<and> timeout t = tmo \<and>
   mapping_objs t = [] \<and> int2ext t = [] \<and> ext2int t = [] \<and>
   1 \<le> fst port_range \<and> fst port_range < snd port_range \<and> snd port_range \<le> 65535"
  by (auto simp: NATTable_init_def split: if_splits)

lemma init_nat_t0: "NATTable_init ''203.0.113.5'' (40000, 40001) 30 = Inr nat_t0"
  by (simp add: NATTable_init_def nat_t0_def)

lemma lower_tcp: "lower id ''tcp'' = ''tcp''" "lower id ''TCP'' = ''tcp''" "lower id ''udp'' = ''udp''"
  by code_simp+

lemma ports_t0: "[40000 .. 40001 :: int] = [40000, 40001]"
  by (simp add: upto_rec_numeral)

lemma out_tcp_t0:
  "translate_out id ''tcp'' ''10.0.0.2'' 1000 0 nat_t0 = (Inr (''203.0.113.5'', 40000), nat_t1)"
  by (simp add: translate_out_def alloc_port_def lower_tcp nat_t0_def nat_t1_def ports_t0)

lemma out_TCP_t0:
  "translate_out id ''TCP'' ''10.0.0.2'' 1000 0 nat_t0 = (Inr (''203.0.113.5'', 40000), nat_t1)"
  by (simp add: translate_out_def alloc_port_def lower_tcp nat_t0_def nat_t1_def ports_t0)

lemma out_udp_t1:
  "translate_out id ''udp'' ''10.0.0.3'' 1001 5 nat_t1 = (Inr (''203.0.113.5'', 40001), nat_t2)"
  by (simp add: translate_out_def alloc_port_def lower_tcp nat_t1_def nat_t2_def ports_t0)

lemma run_t2:
  "nat_run id [TranslateOut ''tcp'' ''10.0.0.2'' 1000 0, TranslateOut ''udp'' ''10.0.0.3'' 1001 5] nat_t0 = nat_t2"
  by (simp add: out_tcp_t0 out_udp_t1)

lemma request_pool_5_32: "fst (request ''c1'' 0 pool_5_32) = Inl ResourceExhausted"
  by (simp add: empty_pool_request pool_5_32_def)

lemma out_full_t2: "fst (translate_out id ''udp'' ''10.0.0.5'' 1003 9 nat_t2) = Inl PortExhausted"
  by (simp add: translate_out_def alloc_port_def lower_tcp nat_t2_def ports_t0)

lemma expire_100_ab: "fst (expire 100 pool_8_29_ab) = Inr 1"
  by (simp add: expire_def expired_clients_def pool_8_29_ab_def)

lemma nat_expire_31_t2: "fst (nat_expire 31 nat_t2) = Inr 1"
  by (simp add: nat_expire_def to_remove_def nat_t2_def mapping_key_def)

lemma bound_to_touch:
  "bound_to p r k s \<Longrightarrow>
   bound_to p r k (s\<lparr> mapping_objs := (mapping_objs s)[r' := (mapping_objs s ! r')\<lparr> last_seen := t \<rparr>] \<rparr>)"
  by (simp add: bound_to_def set_last_seen_nth)

lemma bound_to_translate_out:
  assumes "bound_to p r k s"
  shows "bound_to p r k (snd (translate_out U pr iip iport now s))"
proof (cases "map_of (int2ext s) (lower U pr, iip, iport)")
  case (Some r')
  then show ?thesis using bound_to_touch[OF assms] by (simp add: translate_out_hit)
next
  case None
  show ?thesis
  proof (cases "alloc_port s")
    case (Inl e)
    then show ?thesis using None assms by (simp add: translate_out_full)
  next
    case (Inr port)
    have "port \<noteq> p" using alloc_port_sound[OF Inr] assms by (auto simp: bound_to_def)
    then show ?thesis
      using assms by (simp add: translate_out_new[OF None Inr] bound_to_def AList.update_conv' nth_append)
  qed
qed

lemma bound_to_step:
  "keeps_mappings x \<Longrightarrow> bound_to p r k s \<Longrightarrow> bound_to p r k (nat_step U x s)"
proof (cases x)
  case (TranslateOut pr iip iport now)
  assume "bound_to p r k s"
  then show ?thesis using TranslateOut by (simp add: bound_to_translate_out)
next
  case (TranslateIn q now)
  assume "bound_to p r k s"
  then show ?thesis using TranslateIn bound_to_touch[of p r k s]
    by (auto simp: translate_in_def split: option.splits)
next
  case (Touch pr iip iport now)
  assume "bound_to p r k s"
  then show ?thesis using Touch bound_to_touch[of p r k s]
    by (auto simp: touch_by_internal_def split: option.splits)
next
  case (NatRelease pr iip iport)
  assume "keeps_mappings x"
  then show ?thesis using NatRelease by simp
next
  case (NatExpire now)
  assume "keeps_mappings x"
  then show ?thesis using NatExpire by simp
qed

lemma bound_to_run:
  "\<forall>x \<in> set ops. keeps_mappings x \<Longrightarrow> bound_to p r k s \<Longrightarrow> bound_to p r k (nat_run U ops s)"
  by (induction ops arbitrary: s) (simp_all add: bound_to_step)

lemma bound_to_translate_in: "bound_to p r k s \<Longrightarrow> fst (translate_in p t s) = Some k"
  by (simp add: translate_in_def bound_to_def)

lemma translate_out_fresh_bound:
  assumes "map_of (int2ext s) (lower U pr, iip, iport) = None"
    and "translate_out U pr iip iport now s = (Inr (pub, p), s')"
  shows "bound_to p (length (mapping_objs s)) (lower U pr, iip, iport) s'"
proof (cases "alloc_port s")
  case (Inl e)
  then show ?thesis using assms by (simp add: translate_out_full)
next
  case (Inr port)
  then show ?thesis
    using assms(2) unfolding translate_out_new[OF assms(1) Inr]
    by (auto simp: bound_to_def AList.update_conv' mapping_key_def)
qed

lemma out_op_keeps: "\<forall>y \<in> set (map out_op xs). keeps_mappings y"
  by (auto simp: out_op_def split: prod.splits)

lemma translate_outs_append:
  "translate_outs U (xs @ ys) s = translate_outs U xs s @ translate_outs U ys (nat_run U (map out_op xs) s)"
  by (induction U xs s rule: translate_outs.induct) (simp_all add: out_op_def)

lemma nat_run_append: "nat_run U (xs @ ys) s = nat_run U ys (nat_run U xs s)"
  by (induction xs arbitrary: s) simp_all

lemma translate_outs_fill:
  "nat_wf s \<Longrightarrow> fst ` set (ext2int s) = {pmin s ..< q} \<Longrightarrow> pmin s \<le> q \<Longrightarrow>
   distinct (map (out_key U) xs) \<Longrightarrow> out_key U ` set xs \<inter> fst ` set (int2ext s) = {} \<Longrightarrow>
   q + int (length xs) \<le> pmax s + 1 \<Longrightarrow>
   translate_outs U xs s = map (\<lambda>p. Inr (public_ip s, p)) [q .. q + int (length xs) - 1] \<and>
   nat_wf (nat_run U (map out_op xs) s) \<and>
   fst ` set (ext2int (nat_run U (map out_op xs) s)) = {pmin s ..< q + int (length xs)} \<and>
   fst ` set (int2ext (nat_run U (map out_op xs) s)) = fst ` set (int2ext s) \<union> out_key U ` set xs \<and>
   (\<forall>i < length xs.
      fst (translate_in (q + int i) None (nat_run U (map out_op xs) s)) = Some (out_key U (xs ! i)))"
proof (induction xs arbitrary: s q)
  case Nil
  then show ?case by simp
next
  case (Cons x xs)
  obtain pr iip iport now where x: "x = (pr, iip, iport, now)" by (cases x)
  let ?k = "(lower U pr, iip, iport)"
  have k: "out_key U x = ?k" using x by (simp add: out_key_def)
  have n: "map_of (int2ext s) ?k = None"
    using Cons.prems(5) k by (auto simp: map_of_eq_None_iff)
  have qmax: "q \<le> pmax s" using Cons.prems(6) by simp
  have free: "map_of (ext2int s) q = None"
    using Cons.prems(2) by (auto simp: map_of_eq_None_iff)
  have used: "\<forall>q'. pmin s \<le> q' \<and> q' < q \<longrightarrow> map_of (ext2int s) q' \<noteq> None"
  proof (intro allI impI)
    fix q' assume "pmin s \<le> q' \<and> q' < q"
    then have "q' \<in> fst ` set (ext2int s)" using Cons.prems(2) by simp
    then show "map_of (ext2int s) q' \<noteq> None" by (simp add: map_of_eq_None_iff)
  qed
  have al: "alloc_port s = Inr q" by (rule alloc_port_least[OF Cons.prems(3) qmax free used])
  let ?s1 = "snd (translate_out U pr iip iport now s)"
  have t: "translate_out U pr iip iport now s = (Inr (public_ip s, q), ?s1)"
    by (simp add: translate_out_new[OF n al])
  have s1: "?s1 = s\<lparr> mapping_objs := mapping_objs s @
            [\<lparr> proto = lower U pr, internal_ip = iip, internal_port = iport,
               external_port = q, last_seen = now \<rparr>],
          int2ext := AList.update ?k (length (mapping_objs s)) (int2ext s),
          ext2int := AList.update q (length (mapping_objs s)) (ext2int s) \<rparr>"
    by (simp add: translate_out_new[OF n al])
  have tf: "fst (translate_out U pr iip iport now s) = Inr (public_ip s, q)"
    by (simp add: translate_out_new[OF n al])
  have w1: "nat_wf ?s1" by (rule translate_out_wf[OF Cons.prems(1)])
  have f1: "pmin ?s1 = pmin s" "pmax ?s1 = pmax s" "public_ip ?s1 = public_ip s" by simp_all
  have e1: "fst ` set (ext2int ?s1) = {pmin ?s1 ..< q + 1}"
    using Cons.prems(2,3) by (subst s1) (auto simp: AList.dom_update)
  have i1: "fst ` set (int2ext ?s1) = insert ?k (fst ` set (int2ext s))"
    by (subst s1) (simp add: AList.dom_update)
  have d1: "distinct (map (out_key U) xs)" using Cons.prems(4) by simp
  have x1: "out_key U ` set xs \<inter> fst ` set (int2ext ?s1) = {}"
    using Cons.prems(4,5) k unfolding i1 by auto
  have l1: "q + 1 + int (length xs) \<le> pmax ?s1 + 1" using Cons.prems(6) by simp
  have p1: "pmin ?s1 \<le> q + 1" using Cons.prems(3) by simp
  note IH = Cons.IH[OF w1 e1 p1 d1 x1 l1]
  have run: "nat_run U (map out_op (x # xs)) s = nat_run U (map out_op xs) ?s1"
    using x by (simp add: out_op_def)
  have b: "bound_to q (length (mapping_objs s)) ?k ?s1"
    by (rule translate_out_fresh_bound[OF n t])
  have b': "fst (translate_in q None (nat_run U (map out_op xs) ?s1)) = Some ?k"
    by (rule bound_to_translate_in[OF bound_to_run[OF out_op_keeps b]])
  have r1: "translate_outs U (x # xs) s =
        map (\<lambda>p. Inr (public_ip s, p)) [q .. q + int (length (x # xs)) - 1]"
  proof -
    have "[q .. q + int (length (x # xs)) - 1] = q # [q + 1 .. q + 1 + int (length xs) - 1]"
      by (subst upto_rec1) simp_all
    then show ?thesis using IH x tf by (simp add: f1)
  qed
  have r3: "fst ` set (ext2int (nat_run U (map out_op (x # xs)) s)) =
        {pmin s ..< q + int (length (x # xs))}"
  proof -
    have "fst ` set (ext2int (nat_run U (map out_op xs) ?s1)) = {pmin ?s1 ..< q + 1 + int (length xs)}"
      using IH by blast
    moreover have "q + 1 + int (length xs) = q + int (length (x # xs))" by simp
    ultimately show ?thesis unfolding run f1 by (simp only:)
  qed
  have r4: "fst ` set (int2ext (nat_run U (map out_op (x # xs)) s)) =
        fst ` set (int2ext s) \<union> out_key U ` set (x # xs)"
    using IH k unfolding run i1 by auto
  have r5: "\<forall>i < length (x # xs).
      fst (translate_in (q + int i) None (nat_run U (map out_op (x # xs)) s)) =
      Some (out_key U ((x # xs) ! i))"
  proof (intro allI impI)
    fix i assume i: "i < length (x # xs)"
    show "fst (translate_in (q + int i) None (nat_run U (map out_op (x # xs)) s)) =
      Some (out_key U ((x # xs) ! i))"
    proof (cases i)
      case 0
      then show ?thesis using b' k unfolding run by simp
    next
      case (Suc j)
      then have "j < length xs" using i by simp
      then have "fst (translate_in (q + 1 + int j) None (nat_run U (map out_op xs) ?s1)) =
          Some (out_key U (xs ! j))" using IH by blast
      moreover have "q + 1 + int j = q + int i" using Suc by simp
      ultimately show ?thesis using Suc unfolding run by (simp only: nth_Cons_Suc)
    qed
  qed
  show ?case using r1 IH r3 r4 r5 unfolding run by blast
qed

lemma translate_out_exhausted_iff:
  assumes "map_of (int2ext s) (lower U pr, iip, iport) = None"
  shows "fst (translate_out U pr iip iport now s) = Inl PortExhausted \<longleftrightarrow>
         (\<forall>p. pmin s \<le> p \<and> p \<le> pmax s \<longrightarrow> map_of (ext2int s) p \<noteq> None)"
proof (cases "alloc_port s")
  case (Inl e)
  then show ?thesis
    using alloc_port_exhausted[of s e] by (simp add: translate_out_full[OF assms Inl])
next
  case (Inr port)
  then show ?thesis
    using alloc_port_sound[OF Inr] by (auto simp: translate_out_new[OF assms Inr])
qed

lemma translate_out_error:
  assumes "map_of (int2ext s) (lower U pr, iip, iport) = None"
    and "fst (translate_out U pr iip iport now s) = Inl e"
  shows "e = PortExhausted \<and> snd (translate_out U pr iip iport now s) = s"
proof (cases "alloc_port s")
  case (Inl e')
  then show ?thesis
    using assms(2) alloc_port_exhausted[of s e'] by (simp add: translate_out_full[OF assms(1) Inl])
next
  case (Inr port)
  then show ?thesis using assms(2) by (simp add: translate_out_new[OF assms(1) Inr])
qed

lemma translate_out_allocates:
  assumes "map_of (int2ext s) (lower U pr, iip, iport) = None"
    and "translate_out U pr iip iport now s = (Inr res, s')"
  shows "fst res = public_ip s \<and> pmin s \<le> snd res \<and> snd res \<le> pmax s \<and>
         map_of (ext2int s) (snd res) = None \<and>
         (\<forall>q. pmin s \<le> q \<and> q < snd res \<longrightarrow> map_of (ext2int s) q \<noteq> None) \<and>
         s' = s\<lparr> mapping_objs := mapping_objs s @
                  [\<lparr> proto = lower U pr, internal_ip = iip, internal_port = iport,
                     external_port = snd res, last_seen = now \<rparr>],
                int2ext := AList.update (lower U pr, iip, iport) (length (mapping_objs s)) (int2ext s),
                ext2int := AList.update (snd res) (length (mapping_objs s)) (ext2int s) \<rparr>"
proof (cases "alloc_port s")
  case (Inl e)
  then show ?thesis using assms(2) by (simp add: translate_out_full[OF assms(1) Inl])
next
  case (Inr port)
  have "res = (public_ip s, port)" using assms(2) by (simp add: translate_out_new[OF assms(1) Inr])
  then show ?thesis
    using alloc_port_sound[OF Inr] assms(2) by (simp add: translate_out_new[OF assms(1) Inr])
qed

lemma translate_outs_exhaust:
  assumes "NATTable_init pub port_range tmo = Inr t0"
    and "distinct (map (out_key U) (xs @ [x]))"
    and "int (length xs) = snd port_range - fst port_range + 1"
  shows "translate_outs U (xs @ [x]) t0 =
           map (\<lambda>p. Inr (pub, p)) [fst port_range .. snd port_range] @ [Inl PortExhausted]"
    and "nat_run U (map out_op (xs @ [x])) t0 = nat_run U (map out_op xs) t0"
    and "\<forall>i < length xs.
           fst (translate_in (fst port_range + int i) None (nat_run U (map out_op (xs @ [x])) t0)) =
           Some (out_key U (xs ! i))"
proof -
  note f = NATTable_init_fields[OF assms(1)]
  have w: "nat_wf t0" by (rule NATTable_init_wf[OF assms(1)])
  have 1: "fst ` set (ext2int t0) = {pmin t0 ..< pmin t0}" using f by simp
  have 2: "distinct (map (out_key U) xs)" using assms(2) by simp
  have 3: "out_key U ` set xs \<inter> fst ` set (int2ext t0) = {}" using f by simp
  have 4: "pmin t0 + int (length xs) \<le> pmax t0 + 1" using assms(3) f by simp
  note fill = translate_outs_fill[OF w 1 order_refl 2 3 4]
  let ?s = "nat_run U (map out_op xs) t0"
  have e: "pmin t0 + int (length xs) - 1 = snd port_range" "pmin t0 = fst port_range"
       "public_ip t0 = pub"
    using assms(3) f by simp_all
  have r: "translate_outs U xs t0 = map (\<lambda>p. Inr (pub, p)) [fst port_range .. snd port_range]"
    using fill e by simp
  obtain pr iip iport now where x: "x = (pr, iip, iport, now)" by (cases x)
  have "out_key U x \<notin> fst ` set (int2ext ?s)"
    using fill assms(2) f by auto
  then have n: "map_of (int2ext ?s) (lower U pr, iip, iport) = None"
    using x by (simp add: out_key_def map_of_eq_None_iff)
  have "fst ` set (ext2int ?s) = {pmin ?s ..< pmax ?s + 1}"
    using fill assms(3) f by simp
  then have "\<forall>p. pmin ?s \<le> p \<and> p \<le> pmax ?s \<longrightarrow> map_of (ext2int ?s) p \<noteq> None"
    by (auto simp: map_of_eq_None_iff)
  then have full: "fst (translate_out U pr iip iport now ?s) = Inl PortExhausted"
    by (simp add: translate_out_exhausted_iff[OF n])
  then have same: "snd (translate_out U pr iip iport now ?s) = ?s"
    using translate_out_error[OF n] by blast
  show "translate_outs U (xs @ [x]) t0 =
           map (\<lambda>p. Inr (pub, p)) [fst port_range .. snd port_range] @ [Inl PortExhausted]"
    using r full x by (simp add: translate_outs_append)
  show run: "nat_run U (map out_op (xs @ [x])) t0 = ?s"
    using same x by (simp add: nat_run_append out_op_def)
  show "\<forall>i < length xs.
           fst (translate_in (fst port_range + int i) None (nat_run U (map out_op (xs @ [x])) t0)) =
           Some (out_key U (xs ! i))"
    using fill e(2) unfolding run by simp
qed

section \<open>The claims\<close>

text \<open>
  C1. From any pool that \<^verbatim>\<open>LeasePool.__init__\<close> builds and after any sequence of
  request, renew, release and expire calls, with any clients and any times: the
  available queue holds no address twice, the address index holds one lease per
  address, no two clients' leases hold the same address, the leased addresses are the
  addresses of the clients' leases, no address is both available and leased, and the
  available and the leased addresses together are the hosts of the block minus the
  exclusions and the first host.
\<close>

theorem C1_partition:
  assumes "LeasePool_init addr prefixlen ls excl = Inr p0"
  shows "distinct (available (pool_run ops p0)) \<and>
         distinct (map fst (leases_by_ip (pool_run ops p0))) \<and>
         distinct (map (\<lambda>(c, r). ip (lease_objs (pool_run ops p0) ! r)) (leases_by_client (pool_run ops p0))) \<and>
         leased (pool_run ops p0) =
           (\<lambda>(c, r). ip (lease_objs (pool_run ops p0) ! r)) ` set (leases_by_client (pool_run ops p0)) \<and>
         set (available (pool_run ops p0)) \<inter> leased (pool_run ops p0) = {} \<and>
         set (available (pool_run ops p0)) \<union> leased (pool_run ops p0) =
           {a \<in> set (hosts addr prefixlen). a \<notin> set excl \<and> a \<noteq> hd (hosts addr prefixlen)}"
proof -
  let ?s = "pool_run ops p0"
  have w: "pool_wf ?s" using assms by (simp add: LeasePool_init_wf pool_run_wf)
  have "pool_parts ?s = pool_parts p0" using assms by (simp add: LeasePool_init_wf pool_run_parts)
  also have "\<dots> = {a \<in> set (hosts addr prefixlen). a \<notin> set excl \<and> a \<noteq> hd (hosts addr prefixlen)}"
    using LeasePool_init_fields[OF assms] by (auto simp: pool_parts_def leased_def)
  finally have u: "set (available ?s) \<union> leased ?s =
      {a \<in> set (hosts addr prefixlen). a \<notin> set excl \<and> a \<noteq> hd (hosts addr prefixlen)}"
    by (simp add: pool_parts_def)
  have d: "set (available ?s) \<inter> leased ?s = {}"
    using w unfolding pool_wf_def leased_def
    by (auto simp: dom_map_of_conv_image_fst[symmetric] simp del: map_of_eq_Some_iff)
  have d1: "distinct (available ?s)" "distinct (map fst (leases_by_ip ?s))"
    using w unfolding pool_wf_def by blast+
  show ?thesis
    using d1 wf_lease_ips_distinct[OF w] wf_leased_by_client[OF w] d u by (intro conjI)
qed

theorem C1_witness:
  "LeasePool_init 8 29 100 [] =
     Inr \<lparr> net = (8, 29), lease_seconds = 100, lease_objs = [],
            available = [10, 11, 12, 13, 14], leases_by_client = [], leases_by_ip = [] \<rparr> \<and>
   set (available (pool_run [Request ''a'' 0, Request ''b'' 1, Release ''a'', Expire 200]
     \<lparr> net = (8, 29), lease_seconds = 100, lease_objs = [],
            available = [10, 11, 12, 13, 14], leases_by_client = [], leases_by_ip = [] \<rparr>)) \<union>
   leased (pool_run [Request ''a'' 0, Request ''b'' 1, Release ''a'', Expire 200]
     \<lparr> net = (8, 29), lease_seconds = 100, lease_objs = [],
            available = [10, 11, 12, 13, 14], leases_by_client = [], leases_by_ip = [] \<rparr>) =
   {10, 11, 12, 13, 14}"
  using C1_partition[OF init_8_29, of "[Request ''a'' 0, Request ''b'' 1, Release ''a'', Expire 200]"]
  by (auto simp: init_8_29 hosts_8_29)

text \<open>
  C3. In any state a constructed pool reaches, let \<^verbatim>\<open>request(c, t1)\<close> return the address
  \<open>a\<close>, leaving \<open>c\<close> with the lease \<open>r\<close>. For every \<open>t2\<close> from \<open>t1\<close> on that is
  strictly below that lease's expiry, \<^verbatim>\<open>request(c, t2)\<close> returns \<open>a\<close> again, and \<open>c\<close>
  still holds the same lease object with the same address and the same expiry.
\<close>

theorem C3_request_idempotent:
  assumes "LeasePool_init addr prefixlen ls excl = Inr p0"
    and "request c t1 (pool_run ops p0) = (Inr a, s1)"
    and "map_of (leases_by_client s1) c = Some r"
    and "t1 \<le> t2" and "t2 < expiry (lease_objs s1 ! r)"
  shows "\<exists>s2. request c t2 s1 = (Inr a, s2) \<and>
              map_of (leases_by_client s2) c = Some r \<and>
              ip (lease_objs s2 ! r) = a \<and>
              expiry (lease_objs s2 ! r) = expiry (lease_objs s1 ! r) \<and>
              lease_objs s2 ! r = lease_objs s1 ! r"
proof -
  have w: "pool_wf (pool_run ops p0)" using assms(1) by (simp add: LeasePool_init_wf pool_run_wf)
  have w1: "pool_wf s1" using request_wf[OF w, of c t1] assms(2) by simp
  have "ip (lease_objs s1 ! r) = a"
    using request_result_lease[OF w assms(2)] assms(3) by auto
  then show ?thesis
    using request_live[OF w1 assms(3) assms(5)] by simp
qed

theorem C3_witness:
  "\<exists>s2. request ''a'' 50 pool_8_29_a = (Inr 10, s2) \<and>
         map_of (leases_by_client s2) ''a'' = Some 0 \<and>
         ip (lease_objs s2 ! 0) = 10 \<and>
         expiry (lease_objs s2 ! 0) = expiry (lease_objs pool_8_29_a ! 0) \<and>
         lease_objs s2 ! 0 = lease_objs pool_8_29_a ! 0"
proof -
  have 1: "request ''a'' 0 (pool_run [] pool_8_29) = (Inr 10, pool_8_29_a)"
    by (simp add: request_a_0)
  have 2: "map_of (leases_by_client pool_8_29_a) ''a'' = Some 0"
    by (simp add: pool_8_29_a_def)
  have 3: "(0::int) \<le> 50" by simp
  have 4: "50 < expiry (lease_objs pool_8_29_a ! 0)"
    by (simp add: pool_8_29_a_def)
  show ?thesis by (rule C3_request_idempotent[OF init_pool_8_29 1 2 3 4])
qed



text \<open>
  C10. A pool built from a /32 block: the host list of the block is the one address, it
  is excluded as the gateway, so the available queue is empty, \<^verbatim>\<open>available_count()\<close> is
  0, and in every state the pool reaches every \<^verbatim>\<open>request\<close> raises the exhaustion error
  and leaves the pool as it was built.
\<close>

theorem C10_single_address_block:
  assumes "LeasePool_init addr 32 ls excl = Inr p"
  shows "hosts addr 32 = [addr] \<and> available p = [] \<and> available_count p = 0 \<and>
         (\<forall>ops cid now. request cid now (pool_run ops p) = (Inl ResourceExhausted, p))"
proof -
  have h: "hosts addr 32 = [addr]" by (simp add: hosts_def)
  have a: "available p = []" "leases_by_client p = []"
    using LeasePool_init_fields[OF assms] by (simp_all add: h)
  show ?thesis
    using h a by (simp add: available_count_def empty_pool_run empty_pool_request)
qed

theorem C10_witness:
  "LeasePool_init 5 32 60 [] =
     Inr \<lparr> net = (5, 32), lease_seconds = 60, lease_objs = [], available = [],
            leases_by_client = [], leases_by_ip = [] \<rparr> \<and>
   request ''c1'' 0 \<lparr> net = (5, 32), lease_seconds = 60, lease_objs = [], available = [],
            leases_by_client = [], leases_by_ip = [] \<rparr> =
     (Inl ResourceExhausted, \<lparr> net = (5, 32), lease_seconds = 60, lease_objs = [], available = [],
            leases_by_client = [], leases_by_ip = [] \<rparr>)"
proof -
  have h: "LeasePool_init 5 32 60 [] =
     Inr \<lparr> net = (5, 32), lease_seconds = 60, lease_objs = [], available = [],
            leases_by_client = [], leases_by_ip = [] \<rparr>"
    by (simp add: LeasePool_init_def hosts_def network_address_def)
  show ?thesis
    using C10_single_address_block[OF h] h by (metis pool_run.simps(1))
qed

text \<open>
  C6. In any state \<open>s\<close> a constructed pool reaches: \<^verbatim>\<open>release\<close> of a client without a
  lease changes nothing; \<^verbatim>\<open>release\<close> of a client with a lease, whatever the lease's
  expiry, puts the lease's address at the tail of the available queue and removes the
  lease. The queue is always a tail of the constructed queue (the addresses never handed
  out yet) followed by addresses that were handed out and came back. Releasing the
  distinct clients \<open>cs\<close> one after the other appends their addresses in that order, and
  the following requests of distinct clients that hold no lease are served from the
  head: first everything that was in the queue before the releases, then the released
  addresses in the order of their release.
\<close>

theorem C6_fifo_reuse:
  assumes "LeasePool_init addr prefixlen ls excl = Inr p0"
    and "distinct cs" and "distinct (map fst reqs)"
    and "fst ` set reqs \<inter>
         fst ` set (leases_by_client (pool_run (map Release cs) (pool_run ops p0))) = {}"
    and "length reqs \<le> length (available (pool_run (map Release cs) (pool_run ops p0)))"
  shows "(\<forall>c. map_of (leases_by_client (pool_run ops p0)) c = None \<longrightarrow>
            release c (pool_run ops p0) = pool_run ops p0) \<and>
         (\<forall>c r. map_of (leases_by_client (pool_run ops p0)) c = Some r \<longrightarrow>
            available (release c (pool_run ops p0)) =
              available (pool_run ops p0) @ [ip (lease_objs (pool_run ops p0) ! r)] \<and>
            map_of (leases_by_client (release c (pool_run ops p0))) c = None) \<and>
         queue_shape (available p0) (available (pool_run ops p0)) \<and>
         available (pool_run (map Release cs) (pool_run ops p0)) =
           available (pool_run ops p0) @ lease_ips (pool_run ops p0) cs \<and>
         requests reqs (pool_run (map Release cs) (pool_run ops p0)) =
           map Inr (take (length reqs)
             (available (pool_run ops p0) @ lease_ips (pool_run ops p0) cs))"
proof -
  let ?s = "pool_run ops p0"
  let ?s1 = "pool_run (map Release cs) ?s"
  have w0: "pool_wf p0" using assms(1) by (rule LeasePool_init_wf)
  have w1: "pool_wf ?s1" by (intro pool_run_wf w0)
  have p0: "pool_parts p0 = set (available p0)"
    using LeasePool_init_fields[OF assms(1)] by (simp add: pool_parts_def leased_def)
  have 1: "\<forall>c. map_of (leases_by_client ?s) c = None \<longrightarrow> release c ?s = ?s"
    by (simp add: release_absent)
  have 2: "\<forall>c r. map_of (leases_by_client ?s) c = Some r \<longrightarrow>
            available (release c ?s) = available ?s @ [ip (lease_objs ?s ! r)] \<and>
            map_of (leases_by_client (release c ?s)) c = None"
    using release_present[of ?s] by blast
  have 3: "queue_shape (available p0) (available ?s)"
    by (rule pool_run_shape[OF w0 p0 queue_shape_init])
  have 4: "available ?s1 = available ?s @ lease_ips ?s cs"
    by (rule releases_available[OF assms(2)])
  have 5: "requests reqs ?s1 = map Inr (take (length reqs) (available ?s @ lease_ips ?s cs))"
    using requests_fifo[OF w1 assms(3) assms(4) assms(5)] 4 by simp
  show ?thesis using 1 2 3 4 5 by (intro conjI)
qed

theorem C6_witness:
  "available (pool_run (map Release [''a'']) pool_8_29_ab) = [12, 13, 14, 10] \<and>
   requests [(''c'', 2), (''d'', 3), (''e'', 4), (''f'', 5)] (pool_run (map Release [''a'']) pool_8_29_ab) =
     [Inr 12, Inr 13, Inr 14, Inr 10]"
proof -
  have r: "pool_run (map Release [''a'']) (pool_run [Request ''a'' 0, Request ''b'' 1] pool_8_29) = pool_8_29_b"
    by (simp add: request_a_0 request_b_1 release_a)
  have 2: "distinct [''a'']" by simp
  have 3: "distinct (map fst [(''c'', 2::int), (''d'', 3), (''e'', 4), (''f'', 5)])" by simp
  have 4: "fst ` set [(''c'', 2::int), (''d'', 3), (''e'', 4), (''f'', 5)] \<inter>
         fst ` set (leases_by_client (pool_run (map Release [''a''])
            (pool_run [Request ''a'' 0, Request ''b'' 1] pool_8_29))) = {}"
    unfolding r by (simp add: pool_8_29_b_def)
  have 5: "length [(''c'', 2::int), (''d'', 3), (''e'', 4), (''f'', 5)] \<le>
      length (available (pool_run (map Release [''a''])
            (pool_run [Request ''a'' 0, Request ''b'' 1] pool_8_29)))"
    unfolding r by (simp add: pool_8_29_b_def)
  have l: "lease_ips pool_8_29_ab [''a''] = [10]" by (simp add: pool_8_29_ab_def)
  have a: "available pool_8_29_ab = [12, 13, 14]" by (simp add: pool_8_29_ab_def)
  show ?thesis
    using C6_fifo_reuse[OF init_pool_8_29 2 3 4 5] unfolding run_ab l a by simp
qed

text \<open>
  C9. From any table that \<^verbatim>\<open>NATTable.__init__\<close> builds and after any sequence of
  translate_out, translate_in, touch_by_internal, release and expire calls: each index
  has one entry per key; two live mappings with the same (protocol, internal address,
  internal port) triple are the same mapping, and so are two live mappings with the
  same external port; both indices hold the same mapping objects; every live mapping
  is filed under its own triple and its own external port, and that port lies in the
  configured range.
\<close>

theorem C9_table_invariants:
  assumes "NATTable_init pub port_range tmo = Inr t0"
  shows "distinct (map fst (int2ext (nat_run U ops t0))) \<and>
         distinct (map fst (ext2int (nat_run U ops t0))) \<and>
         (\<forall>(k, r) \<in> set (int2ext (nat_run U ops t0)). \<forall>(k', r') \<in> set (int2ext (nat_run U ops t0)).
            mapping_key (mapping_objs (nat_run U ops t0) ! r) =
            mapping_key (mapping_objs (nat_run U ops t0) ! r') \<longrightarrow> r = r') \<and>
         (\<forall>(p, r) \<in> set (ext2int (nat_run U ops t0)). \<forall>(p', r') \<in> set (ext2int (nat_run U ops t0)).
            external_port (mapping_objs (nat_run U ops t0) ! r) =
            external_port (mapping_objs (nat_run U ops t0) ! r') \<longrightarrow> r = r') \<and>
         snd ` set (int2ext (nat_run U ops t0)) = snd ` set (ext2int (nat_run U ops t0)) \<and>
         (\<forall>(k, r) \<in> set (int2ext (nat_run U ops t0)).
            mapping_key (mapping_objs (nat_run U ops t0) ! r) = k \<and>
            fst port_range \<le> external_port (mapping_objs (nat_run U ops t0) ! r) \<and>
            external_port (mapping_objs (nat_run U ops t0) ! r) \<le> snd port_range) \<and>
         (\<forall>(p, r) \<in> set (ext2int (nat_run U ops t0)).
            external_port (mapping_objs (nat_run U ops t0) ! r) = p \<and>
            fst port_range \<le> p \<and> p \<le> snd port_range)"
proof -
  let ?s = "nat_run U ops t0"
  have w: "nat_wf ?s" using assms by (simp add: NATTable_init_wf nat_run_wf)
  have rng: "pmin ?s = fst port_range" "pmax ?s = snd port_range"
    using NATTable_init_fields[OF assms] by simp_all
  have i: "\<And>k r. (k, r) \<in> set (int2ext ?s) \<Longrightarrow>
      mapping_key (mapping_objs ?s ! r) = k \<and>
      map_of (ext2int ?s) (external_port (mapping_objs ?s ! r)) = Some r"
    using w by (auto simp: nat_wf_def)
  have e: "\<And>p r. (p, r) \<in> set (ext2int ?s) \<Longrightarrow>
      external_port (mapping_objs ?s ! r) = p \<and> fst port_range \<le> p \<and> p \<le> snd port_range \<and>
      map_of (int2ext ?s) (mapping_key (mapping_objs ?s ! r)) = Some r"
    using w rng by (auto simp: nat_wf_def)
  have 1: "distinct (map fst (int2ext ?s))" "distinct (map fst (ext2int ?s))"
    using w by (simp_all add: nat_wf_def)
  have 3: "\<forall>(k, r) \<in> set (int2ext ?s). \<forall>(k', r') \<in> set (int2ext ?s).
            mapping_key (mapping_objs ?s ! r) = mapping_key (mapping_objs ?s ! r') \<longrightarrow> r = r'"
  proof (clarify)
    fix k r k' r'
    assume a: "(k, r) \<in> set (int2ext ?s)" "(k', r') \<in> set (int2ext ?s)"
      "mapping_key (mapping_objs ?s ! r) = mapping_key (mapping_objs ?s ! r')"
    then have "k = k'" using i[OF a(1)] i[OF a(2)] by metis
    then show "r = r'" using a(1,2) 1(1) by (meson eq_key_imp_eq_value)
  qed
  have 4: "\<forall>(p, r) \<in> set (ext2int ?s). \<forall>(p', r') \<in> set (ext2int ?s).
            external_port (mapping_objs ?s ! r) = external_port (mapping_objs ?s ! r') \<longrightarrow> r = r'"
  proof (clarify)
    fix p r p' r'
    assume a: "(p, r) \<in> set (ext2int ?s)" "(p', r') \<in> set (ext2int ?s)"
      "external_port (mapping_objs ?s ! r) = external_port (mapping_objs ?s ! r')"
    then have "p = p'" using e[OF a(1)] e[OF a(2)] by metis
    then show "r = r'" using a(1,2) 1(2) by (meson eq_key_imp_eq_value)
  qed
  have 5: "snd ` set (int2ext ?s) = snd ` set (ext2int ?s)" by (rule nat_wf_same_refs[OF w])
  have 6: "\<forall>(k, r) \<in> set (int2ext ?s).
            mapping_key (mapping_objs ?s ! r) = k \<and>
            fst port_range \<le> external_port (mapping_objs ?s ! r) \<and>
            external_port (mapping_objs ?s ! r) \<le> snd port_range"
  proof (clarify)
    fix k r assume a: "(k, r) \<in> set (int2ext ?s)"
    have "(external_port (mapping_objs ?s ! r), r) \<in> set (ext2int ?s)"
      using i[OF a] by (blast dest: map_of_SomeD)
    then show "mapping_key (mapping_objs ?s ! r) = k \<and>
            fst port_range \<le> external_port (mapping_objs ?s ! r) \<and>
            external_port (mapping_objs ?s ! r) \<le> snd port_range"
      using i[OF a] e by blast
  qed
  have 7: "\<forall>(p, r) \<in> set (ext2int ?s).
            external_port (mapping_objs ?s ! r) = p \<and> fst port_range \<le> p \<and> p \<le> snd port_range"
    using e by blast
  show ?thesis using 1 3 4 5 6 7 by (intro conjI)
qed

theorem C9_witness:
  "NATTable_init ''203.0.113.5'' (40000, 40001) 30 = Inr nat_t0 \<and>
   distinct (map fst (int2ext nat_t2)) \<and>
   distinct (map fst (ext2int nat_t2)) \<and>
   snd ` set (int2ext nat_t2) = snd ` set (ext2int nat_t2)"
  using C9_table_invariants[OF init_nat_t0,
      of id "[TranslateOut ''tcp'' ''10.0.0.2'' 1000 0, TranslateOut ''udp'' ''10.0.0.3'' 1001 5]"]
  unfolding run_t2 by (simp add: init_nat_t0)

text \<open>
  C5. In every state: when \<^verbatim>\<open>request\<close> raises the exhaustion error of the pool, the pool
  is the pool before the call; when \<^verbatim>\<open>translate_out\<close> raises the exhaustion error of the
  table, the table is the table before the call.
\<close>

theorem C5_exhaustion_no_side_effect:
  "(request cid now s = (Inl ResourceExhausted, s') \<longrightarrow> s' = s) \<and>
   (translate_out U pr iip iport now' t = (Inl PortExhausted, t') \<longrightarrow> t' = t)"
proof -
  have "translate_out U pr iip iport now' t = (Inl PortExhausted, t') \<Longrightarrow> t' = t"
    by (auto simp: translate_out_def Let_def split: option.splits sum.splits)
  then show ?thesis using request_exhausted_unchanged[of cid now s s'] by blast
qed

theorem C5_witness:
  "request ''c1'' 0 pool_5_32 = (Inl ResourceExhausted, pool_5_32) \<and>
   translate_out id ''udp'' ''10.0.0.5'' 1003 9 nat_t2 = (Inl PortExhausted, nat_t2)"
proof -
  have 1: "request ''c1'' 0 pool_5_32 = (Inl ResourceExhausted, snd (request ''c1'' 0 pool_5_32))"
    using request_pool_5_32 by (simp add: prod_eq_iff)
  have 2: "translate_out id ''udp'' ''10.0.0.5'' 1003 9 nat_t2 =
       (Inl PortExhausted, snd (translate_out id ''udp'' ''10.0.0.5'' 1003 9 nat_t2))"
    using out_full_t2 by (simp add: prod_eq_iff)
  show ?thesis
    using C5_exhaustion_no_side_effect[of "''c1''" 0 pool_5_32 "snd (request ''c1'' 0 pool_5_32)" id
        "''udp''" "''10.0.0.5''" 1003 9 nat_t2 "snd (translate_out id ''udp'' ''10.0.0.5'' 1003 9 nat_t2)"]
      1 2 by simp
qed

text \<open>
  C7. In any state a constructed pool reaches, \<^verbatim>\<open>LeasePool.expire(now)\<close> raises nothing and
  returns the number of leases whose expiry is at most \<open>now\<close>; each of these leases is
  gone from both indices and its address is in the available queue; a second
  \<^verbatim>\<open>expire(now)\<close> returns 0 and changes nothing. In any state a constructed table
  reaches, \<^verbatim>\<open>NATTable.expire(now)\<close> raises nothing and returns the number of mappings with
  \<open>now - last_seen \<ge> timeout\<close>; each of these mappings is gone from both indices, so
  that its external port is free for \<^verbatim>\<open>_alloc_port\<close>; a second \<^verbatim>\<open>expire(now)\<close> returns 0
  and changes nothing.
\<close>

theorem C7_expire_exact_count:
  assumes "LeasePool_init addr prefixlen ls excl = Inr p0"
    and "NATTable_init pub port_range tmo = Inr t0"
  shows "(\<exists>s'. expire now (pool_run ops p0) =
            (Inr (card {r \<in> snd ` set (leases_by_client (pool_run ops p0)).
                     expiry (lease_objs (pool_run ops p0) ! r) \<le> now}), s') \<and>
           (\<forall>(c, r) \<in> set (leases_by_client (pool_run ops p0)).
              expiry (lease_objs (pool_run ops p0) ! r) \<le> now \<longrightarrow>
              ip (lease_objs (pool_run ops p0) ! r) \<in> set (available s') \<and>
              map_of (leases_by_client s') c = None \<and>
              map_of (leases_by_ip s') (ip (lease_objs (pool_run ops p0) ! r)) = None) \<and>
           expire now s' = (Inr 0, s')) \<and>
         (\<exists>t'. nat_expire now' (nat_run U nops t0) =
            (Inr (card {r \<in> snd ` set (int2ext (nat_run U nops t0)).
                     tmo \<le> now' - last_seen (mapping_objs (nat_run U nops t0) ! r)}), t') \<and>
           (\<forall>(p, r) \<in> set (ext2int (nat_run U nops t0)).
              tmo \<le> now' - last_seen (mapping_objs (nat_run U nops t0) ! r) \<longrightarrow>
              map_of (ext2int t') p = None \<and>
              map_of (int2ext t') (mapping_key (mapping_objs (nat_run U nops t0) ! r)) = None) \<and>
           nat_expire now' t' = (Inr 0, t'))"
proof -
  let ?s = "pool_run ops p0"
  let ?t = "nat_run U nops t0"
  have w: "pool_wf ?s" using assms(1) by (simp add: LeasePool_init_wf pool_run_wf)
  have v: "nat_wf ?t" using assms(2) by (simp add: NATTable_init_wf nat_run_wf)
  have tm: "timeout ?t = tmo" using NATTable_init_fields[OF assms(2)] by simp
  have c1: "length (filter (\<lambda>(c, r). expiry (lease_objs ?s ! r) \<le> now) (leases_by_client ?s)) =
        card {r \<in> snd ` set (leases_by_client ?s). expiry (lease_objs ?s ! r) \<le> now}"
    by (rule length_filter_snd_card[OF pool_wf_distinct_refs[OF w]])
  have a1: "expire now ?s =
      (Inr (card {r \<in> snd ` set (leases_by_client ?s). expiry (lease_objs ?s ! r) \<le> now}),
       snd (expire now ?s))"
    using expire_exact(1)[OF w, of now] c1 by simp
  have a2: "\<forall>(c, r) \<in> set (leases_by_client ?s).
              expiry (lease_objs ?s ! r) \<le> now \<longrightarrow>
              ip (lease_objs ?s ! r) \<in> set (available (snd (expire now ?s))) \<and>
              map_of (leases_by_client (snd (expire now ?s))) c = None \<and>
              map_of (leases_by_ip (snd (expire now ?s))) (ip (lease_objs ?s ! r)) = None"
    using expire_reclaims[OF w] by blast
  have a3: "expire now (snd (expire now ?s)) = (Inr 0, snd (expire now ?s))"
    by (rule expire_idem[OF w])
  have c2: "length (filter (\<lambda>(p, r). tmo \<le> now' - last_seen (mapping_objs ?t ! r)) (ext2int ?t)) =
        card {r \<in> snd ` set (ext2int ?t). tmo \<le> now' - last_seen (mapping_objs ?t ! r)}"
    by (rule length_filter_snd_card[OF nat_wf_distinct_refs[OF v]])
  have "fst (nat_expire now' ?t) = Inr (length (to_remove now' ?t))"
    by (rule nat_expire_ok[OF v])
  then have b1: "nat_expire now' ?t =
      (Inr (card {r \<in> snd ` set (int2ext ?t). tmo \<le> now' - last_seen (mapping_objs ?t ! r)}),
       snd (nat_expire now' ?t))"
    using c2 tm nat_wf_same_refs[OF v] by (simp add: to_remove_def prod_eq_iff)
  have b2: "\<forall>(p, r) \<in> set (ext2int ?t).
              tmo \<le> now' - last_seen (mapping_objs ?t ! r) \<longrightarrow>
              map_of (ext2int (snd (nat_expire now' ?t))) p = None \<and>
              map_of (int2ext (snd (nat_expire now' ?t))) (mapping_key (mapping_objs ?t ! r)) = None"
    using nat_expire_reclaims[OF v] tm by blast
  have b3: "nat_expire now' (snd (nat_expire now' ?t)) = (Inr 0, snd (nat_expire now' ?t))"
    by (rule nat_expire_idem[OF v])
  from a1 a2 a3 have A: "\<exists>s'. expire now ?s =
            (Inr (card {r \<in> snd ` set (leases_by_client ?s). expiry (lease_objs ?s ! r) \<le> now}), s') \<and>
           (\<forall>(c, r) \<in> set (leases_by_client ?s).
              expiry (lease_objs ?s ! r) \<le> now \<longrightarrow>
              ip (lease_objs ?s ! r) \<in> set (available s') \<and>
              map_of (leases_by_client s') c = None \<and>
              map_of (leases_by_ip s') (ip (lease_objs ?s ! r)) = None) \<and>
           expire now s' = (Inr 0, s')"
    by (intro exI[of _ "snd (expire now ?s)"] conjI)
  from b1 b2 b3 have B: "\<exists>t'. nat_expire now' ?t =
            (Inr (card {r \<in> snd ` set (int2ext ?t). tmo \<le> now' - last_seen (mapping_objs ?t ! r)}), t') \<and>
           (\<forall>(p, r) \<in> set (ext2int ?t).
              tmo \<le> now' - last_seen (mapping_objs ?t ! r) \<longrightarrow>
              map_of (ext2int t') p = None \<and>
              map_of (int2ext t') (mapping_key (mapping_objs ?t ! r)) = None) \<and>
           nat_expire now' t' = (Inr 0, t')"
    by (intro exI[of _ "snd (nat_expire now' ?t)"] conjI)
  show ?thesis using A B by (rule conjI)
qed

theorem C7_witness:
  "fst (expire 100 pool_8_29_ab) = Inr 1 \<and>
   ip (lease_objs pool_8_29_ab ! 0) \<in> set (available (snd (expire 100 pool_8_29_ab))) \<and>
   expire 100 (snd (expire 100 pool_8_29_ab)) = (Inr 0, snd (expire 100 pool_8_29_ab)) \<and>
   fst (nat_expire 31 nat_t2) = Inr 1 \<and>
   map_of (ext2int (snd (nat_expire 31 nat_t2))) 40000 = None \<and>
   nat_expire 31 (snd (nat_expire 31 nat_t2)) = (Inr 0, snd (nat_expire 31 nat_t2))"
proof -
  have a: "(''a'', 0) \<in> set (leases_by_client pool_8_29_ab)"
       "expiry (lease_objs pool_8_29_ab ! 0) \<le> 100"
    by (simp_all add: pool_8_29_ab_def)
  have b: "(40000, 0) \<in> set (ext2int nat_t2)"
       "(30::int) \<le> 31 - last_seen (mapping_objs nat_t2 ! 0)"
    by (simp_all add: nat_t2_def)
  show ?thesis
    using C7_expire_exact_count[OF init_pool_8_29 init_nat_t0,
        of 100 "[Request ''a'' 0, Request ''b'' 1]" 31 id
          "[TranslateOut ''tcp'' ''10.0.0.2'' 1000 0, TranslateOut ''udp'' ''10.0.0.3'' 1001 5]"]
      a b expire_100_ab nat_expire_31_t2
    unfolding run_ab run_t2 by (auto simp: prod_eq_iff)
qed

text \<open>
  C4. As the claim states it, \<^verbatim>\<open>translate_in\<close> on a freshly allocated port gives back the
  tuple as the caller passed it, for every protocol string. It does not for a protocol
  with a capital letter: the mapping stores \<^verbatim>\<open>proto.lower()\<close>, and that is what
  \<^verbatim>\<open>translate_in\<close> returns.
\<close>

theorem C4_counterexample:
  "NATTable_init ''203.0.113.5'' (40000, 40001) 30 = Inr nat_t0 \<and>
   int2ext nat_t0 = [] \<and>
   translate_out id ''TCP'' ''10.0.0.2'' 1000 0 nat_t0 = (Inr (''203.0.113.5'', 40000), nat_t1) \<and>
   fst (translate_in 40000 None nat_t1) = Some (''tcp'', ''10.0.0.2'', 1000) \<and>
   fst (translate_in 40000 None nat_t1) \<noteq> Some (''TCP'', ''10.0.0.2'', 1000)"
  by (simp add: init_nat_t0 out_TCP_t0) (simp add: nat_t0_def nat_t1_def translate_in_def mapping_key_def)

text \<open>
  C4, amended. In every state, when \<^verbatim>\<open>translate_out\<close> on a tuple without a mapping
  returns the port \<open>p\<close>, then after any further translate_out, translate_in and
  touch_by_internal calls (no release, no expire), \<^verbatim>\<open>translate_in(p)\<close>, with or without
  a time, returns the originating tuple with the protocol as \<^verbatim>\<open>str.lower()\<close> gives it.
  This holds for every protocol string and whatever the Unicode lower-casing \<open>U\<close> does
  beyond ASCII.
\<close>

theorem C4_inbound_returns_normalised_tuple:
  assumes "map_of (int2ext s) (lower U pr, iip, iport) = None"
    and "translate_out U pr iip iport now s = (Inr (pub, p), s')"
    and "\<forall>x \<in> set ops. keeps_mappings x"
  shows "fst (translate_in p t (nat_run U ops s')) = Some (lower U pr, iip, iport)"
  by (rule bound_to_translate_in[OF bound_to_run[OF assms(3) translate_out_fresh_bound[OF assms(1,2)]]])

theorem C4_witness:
  "fst (translate_in 40000 (Some 7)
      (nat_run id [Touch ''tcp'' ''10.0.0.2'' 1000 3, TranslateOut ''udp'' ''10.0.0.3'' 1001 5] nat_t1)) =
   Some (''tcp'', ''10.0.0.2'', 1000)"
proof -
  have 1: "map_of (int2ext nat_t0) (lower id ''TCP'', ''10.0.0.2'', 1000) = None"
    by (simp add: nat_t0_def)
  have 3: "\<forall>x \<in> set [Touch ''tcp'' ''10.0.0.2'' 1000 3, TranslateOut ''udp'' ''10.0.0.3'' 1001 5].
      keeps_mappings x" by simp
  show ?thesis using C4_inbound_returns_normalised_tuple[OF 1 out_TCP_t0 3, of "Some 7"] by (simp add: lower_tcp)
qed

text \<open>
  C2. As the claim states it, \<open>N + 1\<close> distinct tuples sent into a range of size \<open>N\<close>
  raise on call \<open>N + 1\<close>. Two tuples that differ only in the case of the protocol are
  distinct and share one mapping: with a range of two ports, the third of three
  distinct tuples still gets a port.
\<close>

theorem C2_counterexample:
  "NATTable_init ''203.0.113.5'' (40000, 40001) 30 = Inr nat_t0 \<and>
   distinct [(''tcp'', ''10.0.0.2'', 1000::int), (''TCP'', ''10.0.0.2'', 1000),
             (''udp'', ''10.0.0.3'', 1001)] \<and>
   translate_outs id [(''tcp'', ''10.0.0.2'', 1000, 0), (''TCP'', ''10.0.0.2'', 1000, 0),
                   (''udp'', ''10.0.0.3'', 1001, 5)] nat_t0 =
     [Inr (''203.0.113.5'', 40000), Inr (''203.0.113.5'', 40000), Inr (''203.0.113.5'', 40001)]"
proof -
  have h: "translate_out id ''TCP'' ''10.0.0.2'' 1000 0 nat_t1 = (Inr (''203.0.113.5'', 40000), nat_t1)"
    by (simp add: translate_out_def lower_tcp nat_t1_def)
  show ?thesis
    by (simp add: init_nat_t0 out_tcp_t0 h out_udp_t1)
qed

text \<open>
  C2, amended. Whatever the Unicode lower-casing \<open>U\<close> does beyond ASCII: in every
  state \<open>s\<close>, for a tuple whose key (the protocol as \<^verbatim>\<open>str.lower()\<close> gives it) has no
  mapping: \<^verbatim>\<open>translate_out\<close> raises the exhaustion error if and only if every
  port of \<open>[pmin, pmax]\<close> is a key of the port index; it raises nothing else, and
  raising leaves the state as it was; when it returns, it returns the public address
  and the lowest port of the range that is not a key of the port index, and the new
  state is the old one with one new mapping object (the key's fields, that port,
  \<open>last_seen = now\<close>) filed under the key and under the port. From a constructed table
  with a range of size \<open>N\<close>, \<open>N + 1\<close> calls on tuples whose keys are pairwise distinct
  return the ports of the range in ascending order and then raise; the raising call
  leaves the table unchanged, and \<^verbatim>\<open>translate_in\<close> still maps the \<open>i\<close>-th port to the
  \<open>i\<close>-th key.
\<close>

theorem C2_lowest_free_port_and_exhaustion:
  assumes "NATTable_init pub port_range tmo = Inr t0"
    and "map_of (int2ext s) (lower U pr, iip, iport) = None"
    and "distinct (map (out_key U) (xs @ [x]))"
    and "int (length xs) = snd port_range - fst port_range + 1"
  shows "(fst (translate_out U pr iip iport now s) = Inl PortExhausted \<longleftrightarrow>
            (\<forall>p. pmin s \<le> p \<and> p \<le> pmax s \<longrightarrow> map_of (ext2int s) p \<noteq> None)) \<and>
         (\<forall>e. fst (translate_out U pr iip iport now s) = Inl e \<longrightarrow>
            e = PortExhausted \<and> snd (translate_out U pr iip iport now s) = s) \<and>
         (\<forall>res s'. translate_out U pr iip iport now s = (Inr res, s') \<longrightarrow>
            fst res = public_ip s \<and> pmin s \<le> snd res \<and> snd res \<le> pmax s \<and>
            map_of (ext2int s) (snd res) = None \<and>
            (\<forall>q. pmin s \<le> q \<and> q < snd res \<longrightarrow> map_of (ext2int s) q \<noteq> None) \<and>
            s' = s\<lparr> mapping_objs := mapping_objs s @
                     [\<lparr> proto = lower U pr, internal_ip = iip, internal_port = iport,
                        external_port = snd res, last_seen = now \<rparr>],
                   int2ext := AList.update (lower U pr, iip, iport) (length (mapping_objs s)) (int2ext s),
                   ext2int := AList.update (snd res) (length (mapping_objs s)) (ext2int s) \<rparr>) \<and>
         translate_outs U (xs @ [x]) t0 =
           map (\<lambda>p. Inr (pub, p)) [fst port_range .. snd port_range] @ [Inl PortExhausted] \<and>
         nat_run U (map out_op (xs @ [x])) t0 = nat_run U (map out_op xs) t0 \<and>
         (\<forall>i < length xs.
           fst (translate_in (fst port_range + int i) None (nat_run U (map out_op (xs @ [x])) t0)) =
           Some (out_key U (xs ! i)))"
proof -
  have a: "fst (translate_out U pr iip iport now s) = Inl PortExhausted \<longleftrightarrow>
            (\<forall>p. pmin s \<le> p \<and> p \<le> pmax s \<longrightarrow> map_of (ext2int s) p \<noteq> None)"
    by (rule translate_out_exhausted_iff[OF assms(2)])
  have b: "\<forall>e. fst (translate_out U pr iip iport now s) = Inl e \<longrightarrow>
            e = PortExhausted \<and> snd (translate_out U pr iip iport now s) = s"
    using translate_out_error[OF assms(2)] by blast
  have c: "\<forall>res s'. translate_out U pr iip iport now s = (Inr res, s') \<longrightarrow>
            fst res = public_ip s \<and> pmin s \<le> snd res \<and> snd res \<le> pmax s \<and>
            map_of (ext2int s) (snd res) = None \<and>
            (\<forall>q. pmin s \<le> q \<and> q < snd res \<longrightarrow> map_of (ext2int s) q \<noteq> None) \<and>
            s' = s\<lparr> mapping_objs := mapping_objs s @
                     [\<lparr> proto = lower U pr, internal_ip = iip, internal_port = iport,
                        external_port = snd res, last_seen = now \<rparr>],
                   int2ext := AList.update (lower U pr, iip, iport) (length (mapping_objs s)) (int2ext s),
                   ext2int := AList.update (snd res) (length (mapping_objs s)) (ext2int s) \<rparr>"
    using translate_out_allocates[OF assms(2)] by blast
  note d = translate_outs_exhaust[OF assms(1,3,4)]
  show ?thesis using a b c d by (intro conjI)
qed

theorem C2_witness:
  "translate_outs id [(''tcp'', ''10.0.0.2'', 1000, 0), (''udp'', ''10.0.0.3'', 1001, 5),
                   (''udp'', ''10.0.0.5'', 1003, 9)] nat_t0 =
     [Inr (''203.0.113.5'', 40000), Inr (''203.0.113.5'', 40001), Inl PortExhausted] \<and>
   fst (translate_in 40001 None (nat_run id (map out_op
      [(''tcp'', ''10.0.0.2'', 1000, 0), (''udp'', ''10.0.0.3'', 1001, 5),
       (''udp'', ''10.0.0.5'', 1003, 9)]) nat_t0)) = Some (''udp'', ''10.0.0.3'', 1001)"
proof -
  have 2: "map_of (int2ext nat_t1) (lower id ''udp'', ''10.0.0.3'', 1001) = None"
    by (simp add: nat_t1_def lower_tcp)
  have 3: "distinct (map (out_key id) ([(''tcp'', ''10.0.0.2'', 1000, 0), (''udp'', ''10.0.0.3'', 1001, 5)] @
      [(''udp'', ''10.0.0.5'', 1003, 9)]))"
    by (simp add: out_key_def lower_tcp)
  have 4: "int (length [(''tcp'', ''10.0.0.2'', 1000::int, 0::int), (''udp'', ''10.0.0.3'', 1001, 5)]) =
      snd (40000::int, 40001::int) - fst (40000::int, 40001::int) + 1" by simp
  have k: "out_key id (''udp'', ''10.0.0.3'', 1001, 5) = (''udp'', ''10.0.0.3'', 1001)"
    by (simp add: out_key_def lower_tcp)
  show ?thesis
    using C2_lowest_free_port_and_exhaustion[OF init_nat_t0 2 3 4, of 5] k
    apply (simp add: ports_t0)
    apply (elim conjE)
    apply (drule spec[of _ 1])
    apply simp
    done
qed

end
